theory Spec2Isabelle
  imports Main
begin

section \<open>Token representation\<close>

text \<open>
  The scanner of \<^verbatim>\<open>main.cpp\<close> works on a \<^verbatim>\<open>std::string\<close>, a sequence of
  8-bit code units, modelled as a \<^typ>\<open>string\<close> (a list of \<^typ>\<open>char\<close>). Positions
  (\<^verbatim>\<open>size_t\<close>) are natural numbers: every position the scanner computes is at most
  the length of the buffer plus two, so the 64-bit wrap-around is never reached. The line
  counter is a C++ \<^verbatim>\<open>int\<close> of 32 bits: a line number is an \<^typ>\<open>int\<close> in the
  range of that type, and \<^verbatim>\<open>++line\<close> is \<open>incLine\<close> below, which wraps around at the
  largest value.
\<close>

datatype TokenType = Keyword | Identifier | Number | Operator | Delimiter | String | Char | Unknown

record Token =
  lexeme :: string
  type :: TokenType
  line :: int

text \<open>
  \<^verbatim>\<open>++line\<close> on the 32-bit counter. Signed overflow is undefined behaviour in C++;
  the increment is modelled as the two's complement machine performs it: from
  \<open>2147483647\<close> it wraps to \<open>-2147483648\<close>.
\<close>

definition incLine :: "int \<Rightarrow> int" where
  "incLine ln = (ln + 1 + 2147483648) mod 4294967296 - 2147483648"

section \<open>Character classes\<close>

text \<open>
  The program never calls \<^verbatim>\<open>setlocale\<close>, so the \<^verbatim>\<open>ctype\<close> predicates are those of
  the "C" locale, applied to the character converted to \<^verbatim>\<open>unsigned char\<close>.
\<close>

definition isspace :: "char \<Rightarrow> bool" where
  "isspace c = (c = CHR '' '' \<or> (9 \<le> (of_char c :: nat) \<and> (of_char c :: nat) \<le> 13))"

definition isdigit :: "char \<Rightarrow> bool" where
  "isdigit c = (48 \<le> (of_char c :: nat) \<and> (of_char c :: nat) \<le> 57)"

definition isalpha :: "char \<Rightarrow> bool" where
  "isalpha c = ((65 \<le> (of_char c :: nat) \<and> (of_char c :: nat) \<le> 90) \<or>
                (97 \<le> (of_char c :: nat) \<and> (of_char c :: nat) \<le> 122))"

definition isalnum :: "char \<Rightarrow> bool" where
  "isalnum c = (isalpha c \<or> isdigit c)"

section \<open>Classification helpers\<close>

definition keywordList :: "string list" where
  "keywordList =
    [''int'', ''float'', ''double'', ''char'', ''long'', ''short'', ''bool'', ''void'',
     ''if'', ''else'', ''for'', ''while'', ''do'', ''return'', ''switch'', ''case'', ''break'',
     ''continue'',
     ''class'', ''struct'', ''public'', ''private'', ''protected'',
     ''include'', ''namespace'', ''using'']"

definition isKeyword :: "string \<Rightarrow> bool" where
  "isKeyword s = (s \<in> set keywordList)"

definition delims :: string where
  "delims = '';,(){}[]''"

definition isDelimiter :: "char \<Rightarrow> bool" where
  "isDelimiter c = (c \<in> set delims)"

definition ops :: "string list" where
  "ops =
    [''<<='', ''>>='',
     ''=='', ''!='', ''<='', ''>='', ''++'', ''--'', ''+='', ''-='', ''*='', ''/='', ''%='',
     ''<<'', ''>>'', ''&&'', ''||'',
     ''+'', ''-'', ''*'', ''/'', ''%'', ''='', ''<'', ''>'', ''!'', ''&'', ''|'', ''^'', ''~'']"

definition isOperatorString :: "string \<Rightarrow> bool" where
  "isOperatorString s = (s \<in> set ops)"

section \<open>Literal and number parsers\<close>

text \<open>\<^verbatim>\<open>peekChar\<close>: the character at \<open>i + offset\<close>, or NUL beyond the buffer.\<close>

definition peekChar :: "string \<Rightarrow> nat \<Rightarrow> nat \<Rightarrow> char" where
  "peekChar s i offset = (let idx = i + offset in if idx < length s then s ! idx else CHR 0x00)"

text \<open>
  \<^verbatim>\<open>parseCharLiteral(s, i, line)\<close> is entered with \<open>i < length s\<close>. The references
  \<open>i\<close> and \<open>line\<close> are returned updated, together with the lexeme.
\<close>

definition parseCharLiteral :: "string \<Rightarrow> nat \<Rightarrow> int \<Rightarrow> string \<times> nat \<times> int" where
  "parseCharLiteral s i ln =
    (let n = length s;
         lex0 = [s ! i];
         i0 = i + 1
     in if i0 \<ge> n then (lex0, i0, ln)
        else
          let (lex1, i1, ln1) =
                (if s ! i0 = CHR 0x5C then
                   (let lexb = lex0 @ [s ! i0]; ib = i0 + 1
                    in if ib < n then (lexb @ [s ! ib], ib + 1, ln) else (lexb, ib, ln))
                 else if s ! i0 = CHR 0x0A then (lex0 @ [s ! i0], i0 + 1, incLine ln)
                 else (lex0 @ [s ! i0], i0 + 1, ln))
          in if i1 < n \<and> s ! i1 = CHR 0x27 then (lex1 @ [s ! i1], i1 + 1, ln1)
             else (lex1, i1, ln1))"

text \<open>The \<^verbatim>\<open>while (i < n)\<close> loop of \<^verbatim>\<open>parseStringLiteral\<close>.\<close>

function stringLoop :: "string \<Rightarrow> nat \<Rightarrow> int \<Rightarrow> string \<Rightarrow> string \<times> nat \<times> int" where
  "stringLoop s i ln lx =
    (if i < length s then
       (if s ! i = CHR 0x5C then
          (if i + 1 < length s then stringLoop s (i + 2) ln (lx @ [s ! i, s ! (i + 1)])
           else stringLoop s (i + 1) ln (lx @ [s ! i]))
        else if s ! i = CHR 0x22 then (lx @ [s ! i], i + 1, ln)
        else if s ! i = CHR 0x0A then stringLoop s (i + 1) (incLine ln) (lx @ [s ! i])
        else stringLoop s (i + 1) ln (lx @ [s ! i]))
     else (lx, i, ln))"
  by pat_completeness auto
termination
  by (relation "measure (\<lambda>(s, i, ln, lx). length s - i)") auto

definition parseStringLiteral :: "string \<Rightarrow> nat \<Rightarrow> int \<Rightarrow> string \<times> nat \<times> int" where
  "parseStringLiteral s i ln = stringLoop s (i + 1) ln [s ! i]"

text \<open>
  The three digit loops of \<^verbatim>\<open>parseNumber\<close> have the same body: append the digit,
  advance, and set a flag (\<^verbatim>\<open>hasDigits\<close> or \<^verbatim>\<open>expDigits\<close>).
\<close>

function digitLoop :: "string \<Rightarrow> nat \<Rightarrow> string \<Rightarrow> bool \<Rightarrow> string \<times> nat \<times> bool" where
  "digitLoop s i lx flag =
    (if i < length s \<and> isdigit (s ! i) then digitLoop s (i + 1) (lx @ [s ! i]) True
     else (lx, i, flag))"
  by pat_completeness auto
termination
  by (relation "measure (\<lambda>(s, i, lx, flag). length s - i)") auto

text \<open>
  \<^verbatim>\<open>lexeme.erase(lexeme.size() - 1)\<close> erases from position \<open>size - 1\<close> to the
  end, that is, the last character only; the lexeme holds at least the exponent marker there.
\<close>

definition parseNumber :: "string \<Rightarrow> nat \<Rightarrow> string \<times> nat" where
  "parseNumber s i =
    (let n = length s;
         (lex1, i1, hasDigits1) = digitLoop s i [] False;
         (lex2, i2, hasDigits2) =
            (if i1 < n \<and> s ! i1 = CHR ''.'' then digitLoop s (i1 + 1) (lex1 @ ''.'') hasDigits1
             else (lex1, i1, hasDigits1))
     in if i2 < n \<and> (s ! i2 = CHR ''e'' \<or> s ! i2 = CHR ''E'') then
          (let save = i2;
               lex3 = lex2 @ [s ! i2];
               i3 = i2 + 1;
               (lex4, i4) =
                 (if i3 < n \<and> (s ! i3 = CHR ''+'' \<or> s ! i3 = CHR ''-'') then (lex3 @ [s ! i3], i3 + 1)
                  else (lex3, i3));
               (lex5, i5, expDigits) = digitLoop s i4 lex4 False
           in if \<not> expDigits then (take (length lex5 - 1) lex5, save) else (lex5, i5))
        else (lex2, i2))"

section \<open>The body of the main loop\<close>

text \<open>The skipping loops of the two comment forms.\<close>

function skipLine :: "string \<Rightarrow> nat \<Rightarrow> nat" where
  "skipLine code i = (if i < length code \<and> code ! i \<noteq> CHR 0x0A then skipLine code (i + 1) else i)"
  by pat_completeness auto
termination
  by (relation "measure (\<lambda>(code, i). length code - i)") auto

function skipBlock :: "string \<Rightarrow> nat \<Rightarrow> int \<Rightarrow> nat \<times> int" where
  "skipBlock code i ln =
    (if i + 1 < length code \<and> \<not> (code ! i = CHR ''*'' \<and> code ! (i + 1) = CHR ''/'') then
       skipBlock code (i + 1) (if code ! i = CHR 0x0A then incLine ln else ln)
     else (i, ln))"
  by pat_completeness auto
termination
  by (relation "measure (\<lambda>(code, i, ln). length code - i)") auto

text \<open>The identifier loop: the maximal run of letters, digits and underscores.\<close>

function identLoop :: "string \<Rightarrow> nat \<Rightarrow> string \<Rightarrow> string \<times> nat" where
  "identLoop code i ident =
    (if i < length code \<and> (isalnum (code ! i) \<or> code ! i = CHR ''_'') then
       identLoop code (i + 1) (ident @ [code ! i])
     else (ident, i))"
  by pat_completeness auto
termination
  by (relation "measure (\<lambda>(code, i, ident). length code - i)") auto

text \<open>
  The operator rule. The inner loop builds the window of \<open>len\<close> characters and clears
  it when it meets NUL (the end of the buffer, or a NUL byte of the input); the outer loop
  tries the lengths from \<open>len\<close> down to 1 and is entered with \<open>len = 3\<close>.
\<close>

function opWindow :: "string \<Rightarrow> nat \<Rightarrow> nat \<Rightarrow> nat \<Rightarrow> string \<Rightarrow> string" where
  "opWindow code i len k s =
    (if k < len then
       (let ch = peekChar code i k in
        if ch = CHR 0x00 then [] else opWindow code i len (k + 1) (s @ [ch]))
     else s)"
  by pat_completeness auto
termination
  by (relation "measure (\<lambda>(code, i, len, k, s). len - k)") auto

fun matchOp :: "string \<Rightarrow> nat \<Rightarrow> nat \<Rightarrow> string option" where
  "matchOp code i 0 = None"
| "matchOp code i (Suc l) =
    (let s = opWindow code i (Suc l) 0 [] in
     if s \<noteq> [] \<and> isOperatorString s then Some s else matchOp code i l)"

text \<open>
  One iteration of \<^verbatim>\<open>while (i < n)\<close> in \<^verbatim>\<open>tokenize\<close>, entered with
  \<open>i < length code\<close>: the token pushed in this iteration, if any, and the updated cursor
  and line counter. When the number rule is entered and its result is rejected, the rules
  below it run with the cursor as \<^verbatim>\<open>parseNumber\<close> left it and with the character
  \<open>c\<close> read at the start of the iteration, as in the source.
\<close>

definition scanStep :: "string \<Rightarrow> nat \<Rightarrow> int \<Rightarrow> Token option \<times> nat \<times> int" where
  "scanStep code i ln =
    (let n = length code; c = code ! i in
     if isspace c then (None, i + 1, if c = CHR 0x0A then incLine ln else ln)
     else if c = CHR ''/'' \<and> peekChar code i 1 = CHR ''/'' then (None, skipLine code (i + 2), ln)
     else if c = CHR ''/'' \<and> peekChar code i 1 = CHR ''*'' then
       (let (i1, ln1) = skipBlock code (i + 2) ln
        in (None, if i1 + 1 < n then i1 + 2 else i1, ln1))
     else if c = CHR 0x27 then
       (let (lx, i1, ln1) = parseCharLiteral code i ln
        in (Some \<lparr>lexeme = lx, type = Char, line = ln1\<rparr>, i1, ln1))
     else if c = CHR 0x22 then
       (let (lx, i1, ln1) = parseStringLiteral code i ln
        in (Some \<lparr>lexeme = lx, type = String, line = ln1\<rparr>, i1, ln1))
     else if isalpha c \<or> c = CHR ''_'' then
       (let (ident, i1) = identLoop code i []
        in (Some \<lparr>lexeme = ident, type = (if isKeyword ident then Keyword else Identifier),
                  line = ln\<rparr>, i1, ln))
     else
       (let (num, i1) =
              (if isdigit c \<or> (c = CHR ''.'' \<and> isdigit (peekChar code i 1)) then
                 (let (num, i1) = parseNumber code i
                  in if num \<noteq> [] \<and> list_ex isdigit num then (Some num, i1) else (None, i1))
               else (None, i))
        in case num of
             Some lx \<Rightarrow> (Some \<lparr>lexeme = lx, type = Number, line = ln\<rparr>, i1, ln)
           | None \<Rightarrow>
               (case matchOp code i1 3 of
                  Some s \<Rightarrow> (Some \<lparr>lexeme = s, type = Operator, line = ln\<rparr>, i1 + length s, ln)
                | None \<Rightarrow>
                    if isDelimiter c then (Some \<lparr>lexeme = [c], type = Delimiter, line = ln\<rparr>, i1 + 1, ln)
                    else (Some \<lparr>lexeme = [c], type = Unknown, line = ln\<rparr>, i1 + 1, ln))))"

declare digitLoop.simps [simp del] stringLoop.simps [simp del] skipLine.simps [simp del]
  skipBlock.simps [simp del] identLoop.simps [simp del] opWindow.simps [simp del]

section \<open>Notions used in the statements\<close>

text \<open>\<open>slice s i j\<close> is the part of the buffer from position \<open>i\<close> up to, not including, \<open>j\<close>.\<close>

definition slice :: "string \<Rightarrow> nat \<Rightarrow> nat \<Rightarrow> string" where
  "slice s i j = take (j - i) (drop i s)"

text \<open>
  \<open>opAt code i len\<close>: the \<open>len\<close> characters at the cursor lie inside the input and
  form a member of the operator set.
\<close>

definition opAt :: "string \<Rightarrow> nat \<Rightarrow> nat \<Rightarrow> bool" where
  "opAt code i len = (i + len \<le> length code \<and> isOperatorString (slice code i (i + len)))"

text \<open>
  The entry condition of the number rule:
  \<^verbatim>\<open>isdigit(c) || (c == '.' && isdigit(peekChar(code, i, 1)))\<close>.
\<close>

definition numberStart :: "string \<Rightarrow> nat \<Rightarrow> bool" where
  "numberStart code i =
    (isdigit (code ! i) \<or> (code ! i = CHR ''.'' \<and> isdigit (peekChar code i 1)))"

text \<open>
  The cursor reaches the operator rule when none of the rules above it applies: the
  character is not white space, does not open a comment or a literal, does not start an
  identifier, and the number rule is not entered. (When the number rule is entered it always
  emits a token, see \<open>scanStep_number\<close>, so its fall-through never reaches the operator
  rule.)
\<close>

definition reachesOperatorRule :: "string \<Rightarrow> nat \<Rightarrow> bool" where
  "reachesOperatorRule code i =
    (let c = code ! i in
     \<not> isspace c \<and>
     \<not> (c = CHR ''/'' \<and> (peekChar code i 1 = CHR ''/'' \<or> peekChar code i 1 = CHR ''*'')) \<and>
     c \<noteq> CHR 0x27 \<and> c \<noteq> CHR 0x22 \<and> \<not> (isalpha c \<or> c = CHR ''_'') \<and> \<not> numberStart code i)"

text \<open>The maximal run of letters, digits and underscores that starts at position \<open>i\<close>.\<close>

definition identRun :: "string \<Rightarrow> nat \<Rightarrow> string" where
  "identRun code i = takeWhile (\<lambda>c. isalnum c \<or> c = CHR ''_'') (drop i code)"

text \<open>
  The effect of one iteration of the main loop on the state of \<^verbatim>\<open>tokenize\<close>
  (cursor, line counter, tokens pushed so far).
\<close>

definition loopBody :: "string \<Rightarrow> nat \<times> int \<times> Token list \<Rightarrow> nat \<times> int \<times> Token list" where
  "loopBody code st =
    (case st of (i, ln, tokens) \<Rightarrow>
       (case scanStep code i ln of
          (None, i', ln') \<Rightarrow> (i', ln', tokens)
        | (Some tok, i', ln') \<Rightarrow> (i', ln', tokens @ [tok])))"


text \<open>No line feed of the input directly follows a backslash.\<close>

definition noEscapedLF :: "string \<Rightarrow> bool" where
  "noEscapedLF code =
    list_all (\<lambda>j. \<not> (code ! j = CHR 0x5C \<and> code ! Suc j = CHR 0x0A)) [0..<length code - 1]"

section \<open>Slices of the buffer\<close>

lemma slice_empty: "slice s i i = []"
  by (simp add: slice_def)

lemma slice_one: "i < length s \<Longrightarrow> slice s i (Suc i) = [s ! i]"
  by (simp add: slice_def take_Suc_conv_app_nth hd_drop_conv_nth take_Suc)

lemma slice_append: "i \<le> j \<Longrightarrow> j \<le> k \<Longrightarrow> slice s i j @ slice s j k = slice s i k"
proof -
  assume a: "i \<le> j" "j \<le> k"
  have "take (j - i) (drop i s) @ take (k - j) (drop (j - i) (drop i s)) = take ((j - i) + (k - j)) (drop i s)"
    by (simp only: take_add)
  with a show ?thesis by (simp add: slice_def)
qed

lemma slice_snoc: "i \<le> j \<Longrightarrow> j < length s \<Longrightarrow> slice s i j @ [s ! j] = slice s i (Suc j)"
  using slice_append [of i j "Suc j" s] by (simp add: slice_one)

lemma length_slice: "j \<le> length s \<Longrightarrow> length (slice s i j) = j - i"
  by (simp add: slice_def)

lemma slice_cons: "i < j \<Longrightarrow> i < length s \<Longrightarrow> slice s i j = s ! i # slice s (Suc i) j"
  using slice_append [of i "Suc i" j s] by (simp add: slice_one)

lemma slice_two: "Suc i < length s \<Longrightarrow> slice s i (Suc (Suc i)) = [s ! i, s ! Suc i]"
  by (simp add: slice_cons slice_empty)

lemma slice_three:
  "Suc (Suc i) < length s \<Longrightarrow> slice s i (Suc (Suc (Suc i))) = [s ! i, s ! Suc i, s ! Suc (Suc i)]"
  by (simp add: slice_cons slice_empty)

lemma slice_four:
  "Suc (Suc (Suc i)) < length s \<Longrightarrow>
   slice s i (Suc (Suc (Suc (Suc i)))) = [s ! i, s ! Suc i, s ! Suc (Suc i), s ! Suc (Suc (Suc i))]"
  by (simp add: slice_cons slice_empty)

lemma slice_nth: "i + len \<le> length s \<Longrightarrow> j < len \<Longrightarrow> slice s i (i + len) ! j = s ! (i + j)"
  by (simp add: slice_def)

lemma slice_drop: "i \<le> j \<Longrightarrow> j \<le> length s \<Longrightarrow> slice s i j @ drop j s = drop i s"
proof -
  assume a: "i \<le> j" "j \<le> length s"
  have "take (j - i) (drop i s) @ drop (j - i) (drop i s) = drop i s"
    by (rule append_take_drop_id)
  with a show ?thesis by (simp add: slice_def)
qed

lemma takeWhile_slice:
  "takeWhile P (drop i s) = slice s i (i + length (takeWhile P (drop i s)))"
  by (simp add: slice_def takeWhile_eq_take [symmetric])

lemma list_ex_slice:
  "i \<le> k \<Longrightarrow> k < j \<Longrightarrow> j \<le> length s \<Longrightarrow> P (s ! k) \<Longrightarrow> list_ex P (slice s i j)"
proof -
  assume a: "i \<le> k" "k < j" "j \<le> length s" "P (s ! k)"
  then have "slice s i j ! (k - i) = s ! k" by (simp add: slice_def)
  moreover from a have "k - i < length (slice s i j)" by (simp add: slice_def)
  ultimately have "s ! k \<in> set (slice s i j)" by (metis nth_mem)
  with a(4) show ?thesis by (auto simp: list_ex_iff)
qed

section \<open>The loops of the parsers\<close>

lemma digitLoop_step:
  "i < length s \<Longrightarrow> isdigit (s ! i) \<Longrightarrow> digitLoop s i lx f = digitLoop s (i + 1) (lx @ [s ! i]) True"
  by (simp add: digitLoop.simps [of s i])

lemma digitLoop_stop:
  "\<not> (i < length s \<and> isdigit (s ! i)) \<Longrightarrow> digitLoop s i lx f = (lx, i, f)"
  by (auto simp: digitLoop.simps [of s i])

lemma digitLoop_facts:
  "digitLoop s i lx f = (lx', i', f') \<Longrightarrow> i \<le> length s \<Longrightarrow>
   i \<le> i' \<and> i' \<le> length s \<and> lx' = lx @ slice s i i' \<and> f' = (f \<or> i < i') \<and>
   list_all isdigit (slice s i i')"
proof (induction s i lx f rule: digitLoop.induct)
  case (1 s i lx flag)
  show ?case
  proof (cases "i < length s \<and> isdigit (s ! i)")
    case True
    with "1.prems" have r: "digitLoop s (i + 1) (lx @ [s ! i]) True = (lx', i', f')"
      by (simp add: digitLoop_step)
    from True have "i + 1 \<le> length s" by simp
    from "1.IH" [OF True r this]
    have ih: "i + 1 \<le> i'" "i' \<le> length s" "lx' = (lx @ [s ! i]) @ slice s (i + 1) i'" "f'"
       "list_all isdigit (slice s (i + 1) i')" by simp_all
    from True ih(1) have sl: "slice s i i' = s ! i # slice s (Suc i) i'"
      by (simp add: slice_cons)
    from ih sl True show ?thesis by simp
  next
    case False
    from "1.prems" digitLoop_stop [OF False, of lx flag] show ?thesis
      by (simp add: slice_empty)
  qed
qed

lemma digitLoop_enter:
  assumes "i < length s" "isdigit (s ! i)" "digitLoop s i lx f = (lx', i', f')"
  shows "i < i'"
proof -
  from assms have "digitLoop s (i + 1) (lx @ [s ! i]) True = (lx', i', f')"
    by (simp add: digitLoop_step)
  from digitLoop_facts [OF this] assms(1) show ?thesis by simp
qed

lemma stringLoop_stop: "\<not> i < length s \<Longrightarrow> stringLoop s i ln lx = (lx, i, ln)"
  by (simp add: stringLoop.simps [of s i])

lemma stringLoop_escape2:
  "i + 1 < length s \<Longrightarrow> s ! i = CHR 0x5C \<Longrightarrow>
   stringLoop s i ln lx = stringLoop s (i + 2) ln (lx @ [s ! i, s ! (i + 1)])"
  by (simp add: stringLoop.simps [of s i])

lemma stringLoop_escape1:
  "i < length s \<Longrightarrow> \<not> i + 1 < length s \<Longrightarrow> s ! i = CHR 0x5C \<Longrightarrow>
   stringLoop s i ln lx = stringLoop s (i + 1) ln (lx @ [s ! i])"
  by (simp add: stringLoop.simps [of s i])

lemma stringLoop_quote:
  "i < length s \<Longrightarrow> s ! i = CHR 0x22 \<Longrightarrow> stringLoop s i ln lx = (lx @ [s ! i], i + 1, ln)"
  by (simp add: stringLoop.simps [of s i])

lemma stringLoop_newline:
  "i < length s \<Longrightarrow> s ! i = CHR 0x0A \<Longrightarrow>
   stringLoop s i ln lx = stringLoop s (i + 1) (incLine ln) (lx @ [s ! i])"
  by (simp add: stringLoop.simps [of s i])

lemma stringLoop_other:
  "i < length s \<Longrightarrow> s ! i \<noteq> CHR 0x5C \<Longrightarrow> s ! i \<noteq> CHR 0x22 \<Longrightarrow> s ! i \<noteq> CHR 0x0A \<Longrightarrow>
   stringLoop s i ln lx = stringLoop s (i + 1) ln (lx @ [s ! i])"
  by (simp add: stringLoop.simps [of s i])

lemma stringLoop_facts:
  "stringLoop s i ln lx = (lx', i', ln') \<Longrightarrow> i \<le> length s \<Longrightarrow>
   i \<le> i' \<and> i' \<le> length s \<and> lx' = lx @ slice s i i'"
proof (induction s i ln lx rule: stringLoop.induct)
  case (1 s i ln lx)
  show ?case
  proof (cases "i < length s")
    case False
    with "1.prems" show ?thesis by (simp add: slice_empty stringLoop_stop)
  next
    case inb: True
    show ?thesis
    proof (cases "s ! i = CHR 0x5C")
      case bs: True
      show ?thesis
      proof (cases "i + 1 < length s")
        case True
        with bs "1.prems" have r: "stringLoop s (i + 2) ln (lx @ [s ! i, s ! (i + 1)]) = (lx', i', ln')"
          by (simp add: stringLoop_escape2)
        from True have "i + 2 \<le> length s" by simp
        from "1.IH"(1) [OF inb bs True r this]
        have ih: "i + 2 \<le> i'" "i' \<le> length s" "lx' = (lx @ [s ! i, s ! (i + 1)]) @ slice s (i + 2) i'" by simp_all
        from ih(1) True have "slice s i i' = s ! i # s ! (i + 1) # slice s (i + 2) i'"
          by (simp add: slice_cons)
        with ih show ?thesis by simp
      next
        case False
        with inb bs "1.prems" have r: "stringLoop s (i + 1) ln (lx @ [s ! i]) = (lx', i', ln')"
          by (simp add: stringLoop_escape1)
        from inb have "i + 1 \<le> length s" by simp
        from "1.IH"(2) [OF inb bs False r this]
        have ih: "i + 1 \<le> i'" "i' \<le> length s" "lx' = (lx @ [s ! i]) @ slice s (i + 1) i'" by simp_all
        from ih(1) inb have "slice s i i' = s ! i # slice s (Suc i) i'"
          by (simp add: slice_cons)
        with ih show ?thesis by simp
      qed
    next
      case nbs: False
      show ?thesis
      proof (cases "s ! i = CHR 0x22")
        case True
        with inb "1.prems" show ?thesis by (auto simp: slice_one stringLoop_quote)
      next
        case nq: False
        show ?thesis
        proof (cases "s ! i = CHR 0x0A")
          case True
          with inb "1.prems" have r: "stringLoop s (i + 1) (incLine ln) (lx @ [s ! i]) = (lx', i', ln')"
            by (simp add: stringLoop_newline)
          from inb have "i + 1 \<le> length s" by simp
          from "1.IH"(3) [OF inb nbs nq True r this]
          have ih: "i + 1 \<le> i'" "i' \<le> length s" "lx' = (lx @ [s ! i]) @ slice s (i + 1) i'" by simp_all
          from ih(1) inb have "slice s i i' = s ! i # slice s (Suc i) i'"
            by (simp add: slice_cons)
          with ih show ?thesis by simp
        next
          case False
          with inb nbs nq "1.prems" have r: "stringLoop s (i + 1) ln (lx @ [s ! i]) = (lx', i', ln')"
            by (simp add: stringLoop_other)
          from inb have "i + 1 \<le> length s" by simp
          from "1.IH"(4) [OF inb nbs nq False r this]
          have ih: "i + 1 \<le> i'" "i' \<le> length s" "lx' = (lx @ [s ! i]) @ slice s (i + 1) i'" by simp_all
          from ih(1) inb have "slice s i i' = s ! i # slice s (Suc i) i'"
            by (simp add: slice_cons)
          with ih show ?thesis by simp
        qed
      qed
    qed
  qed
qed


lemma skipLine_step:
  "i < length s \<Longrightarrow> s ! i \<noteq> CHR 0x0A \<Longrightarrow> skipLine s i = skipLine s (i + 1)"
  by (simp add: skipLine.simps [of s i])

lemma skipLine_stop:
  "\<not> (i < length s \<and> s ! i \<noteq> CHR 0x0A) \<Longrightarrow> skipLine s i = i"
  by (auto simp: skipLine.simps [of s i])

lemma skipLine_facts:
  "i \<le> length s \<Longrightarrow> i \<le> skipLine s i \<and> skipLine s i \<le> length s"
proof (induction s i rule: skipLine.induct)
  case (1 code i)
  show ?case
  proof (cases "i < length code \<and> code ! i \<noteq> CHR 0x0A")
    case True
    then have "i + 1 \<le> length code" by simp
    from "1.IH" [OF True this] True show ?thesis by (simp add: skipLine_step)
  next
    case False
    from "1.prems" skipLine_stop [OF False] show ?thesis by simp
  qed
qed

lemma skipBlock_step:
  "i + 1 < length s \<Longrightarrow> \<not> (s ! i = CHR ''*'' \<and> s ! (i + 1) = CHR ''/'') \<Longrightarrow>
   skipBlock s i ln = skipBlock s (i + 1) (if s ! i = CHR 0x0A then incLine ln else ln)"
  by (simp add: skipBlock.simps [of s i])

lemma skipBlock_stop:
  "\<not> (i + 1 < length s \<and> \<not> (s ! i = CHR ''*'' \<and> s ! (i + 1) = CHR ''/'')) \<Longrightarrow>
   skipBlock s i ln = (i, ln)"
  by (auto simp: skipBlock.simps [of s i])

lemma skipBlock_facts:
  "skipBlock s i ln = (i', ln') \<Longrightarrow> i \<le> length s \<Longrightarrow>
   i \<le> i' \<and> i' \<le> length s \<and>
   (i' + 1 < length s \<longrightarrow> s ! i' = CHR ''*'' \<and> s ! (i' + 1) = CHR ''/'')"
proof (induction s i ln rule: skipBlock.induct)
  case (1 code i ln)
  show ?case
  proof (cases "i + 1 < length code \<and> \<not> (code ! i = CHR ''*'' \<and> code ! (i + 1) = CHR ''/'')")
    case True
    with "1.prems" have r: "skipBlock code (i + 1) (if code ! i = CHR 0x0A then incLine ln else ln) = (i', ln')"
      using skipBlock_step [of i code ln] by simp
    from True have "i + 1 \<le> length code" by simp
    from "1.IH" [OF True r this] show ?thesis by (auto split: if_splits)
  next
    case False
    from "1.prems" skipBlock_stop [OF False, of ln] False show ?thesis by auto
  qed
qed

lemma identLoop_step:
  "i < length s \<Longrightarrow> isalnum (s ! i) \<or> s ! i = CHR ''_'' \<Longrightarrow>
   identLoop s i ident = identLoop s (i + 1) (ident @ [s ! i])"
  by (simp add: identLoop.simps [of s i])

lemma identLoop_stop:
  "\<not> (i < length s \<and> (isalnum (s ! i) \<or> s ! i = CHR ''_'')) \<Longrightarrow> identLoop s i ident = (ident, i)"
  by (auto simp: identLoop.simps [of s i])

lemma identLoop_takeWhile:
  "i \<le> length s \<Longrightarrow>
   identLoop s i ident =
     (ident @ takeWhile (\<lambda>c. isalnum c \<or> c = CHR ''_'') (drop i s),
      i + length (takeWhile (\<lambda>c. isalnum c \<or> c = CHR ''_'') (drop i s)))"
proof (induction s i ident rule: identLoop.induct)
  case (1 code i ident)
  show ?case
  proof (cases "i < length code")
    case False
    with "1.prems" show ?thesis by (simp add: identLoop_stop)
  next
    case inb: True
    then have d: "drop i code = code ! i # drop (Suc i) code"
      by (simp add: Cons_nth_drop_Suc)
    show ?thesis
    proof (cases "isalnum (code ! i) \<or> code ! i = CHR ''_''")
      case True
      with inb have c: "i < length code \<and> (isalnum (code ! i) \<or> code ! i = CHR ''_'')" by simp
      from inb have "i + 1 \<le> length code" by simp
      from "1.IH" [OF c this] True inb show ?thesis
        by (simp add: identLoop_step [OF inb True] d)
    next
      case False
      then have "identLoop code i ident = (ident, i)" by (simp add: identLoop_stop)
      with False show ?thesis by (simp add: d)
    qed
  qed
qed

section \<open>The literal and number parsers\<close>

lemma parseCharLiteral_facts:
  assumes "i < length s" and "parseCharLiteral s i ln = (lx, i', ln')"
  shows "i < i' \<and> i' \<le> length s \<and> lx = slice s i i'"
  using assms
  by (auto simp: parseCharLiteral_def Let_def slice_one slice_two slice_three slice_four
      split: if_splits)


lemma parseStringLiteral_facts:
  assumes "i < length s" and "parseStringLiteral s i ln = (lx, i', ln')"
  shows "i < i' \<and> i' \<le> length s \<and> lx = slice s i i'"
proof -
  from assms(2) have r: "stringLoop s (i + 1) ln [s ! i] = (lx, i', ln')"
    by (simp add: parseStringLiteral_def)
  from assms(1) have "i + 1 \<le> length s" by simp
  from stringLoop_facts [OF r this]
  have f: "i + 1 \<le> i'" "i' \<le> length s" "lx = [s ! i] @ slice s (i + 1) i'" by simp_all
  from f(1) assms(1) have "slice s i i' = s ! i # slice s (Suc i) i'" by (simp add: slice_cons)
  with f show ?thesis by simp
qed

lemma not_digit_dot: "\<not> isdigit (CHR ''.'')"
  by (simp add: isdigit_def)

text \<open>The integer and fractional parts of a number.\<close>

lemma parseNumber_mantissa:
  assumes inb: "i < length s"
    and entry: "isdigit (s ! i) \<or> (s ! i = CHR ''.'' \<and> isdigit (peekChar s i 1))"
    and d1: "digitLoop s i [] False = (lex1, i1, h1)"
    and d2: "(if i1 < length s \<and> s ! i1 = CHR ''.'' then digitLoop s (i1 + 1) (lex1 @ ''.'') h1
              else (lex1, i1, h1)) = (lex2, i2, h2)"
  shows "i < i2 \<and> i2 \<le> length s \<and> lex2 = slice s i i2 \<and> list_ex isdigit lex2"
proof -
  from inb have "i \<le> length s" by simp
  from digitLoop_facts [OF d1 this]
  have f1: "i \<le> i1" "i1 \<le> length s" "lex1 = slice s i i1" by simp_all
  show ?thesis
  proof (cases "i1 < length s \<and> s ! i1 = CHR ''.''")
    case dot: True
    with d2 have r: "digitLoop s (i1 + 1) (lex1 @ ''.'') h1 = (lex2, i2, h2)" by simp
    from dot have "i1 + 1 \<le> length s" by simp
    from digitLoop_facts [OF r this]
    have f2: "i1 + 1 \<le> i2" "i2 \<le> length s" "lex2 = (lex1 @ ''.'') @ slice s (i1 + 1) i2"
      by simp_all
    from dot have "slice s i1 (Suc i1) = ''.''" by (simp add: slice_one)
    with f1 have a: "lex1 @ ''.'' = slice s i (Suc i1)"
      using slice_append [of i i1 "Suc i1" s] by simp
    from f2(3) have "lex2 = (lex1 @ ''.'') @ slice s (Suc i1) i2" by simp
    also have "\<dots> = slice s i (Suc i1) @ slice s (Suc i1) i2" by (simp only: a)
    also from f1 f2 have "\<dots> = slice s i i2" by (intro slice_append) simp_all
    finally have lx: "lex2 = slice s i i2" .
    have "list_ex isdigit (slice s i i2)"
    proof (cases "isdigit (s ! i)")
      case True
      from f1 f2 inb True show ?thesis by (intro list_ex_slice [of i i]) simp_all
    next
      case False
      with entry have e: "s ! i = CHR ''.''" "isdigit (peekChar s i 1)" by simp_all
      then have nd: "i + 1 < length s" "isdigit (s ! (i + 1))"
        by (auto simp: peekChar_def Let_def isdigit_def split: if_splits)
      from False inb have "digitLoop s i [] False = ([], i, False)" by (simp add: digitLoop_stop)
      with d1 have i1: "i1 = i" by simp
      from r i1 nd have "i + 1 < i2"
        using digitLoop_enter [of "i + 1" s "lex1 @ ''.''" h1 lex2 i2 h2] by simp
      with f2 nd show ?thesis by (intro list_ex_slice [of i "i + 1"]) simp_all
    qed
    with lx f1 f2 show ?thesis by simp
  next
    case nodot: False
    with d2 have eq: "lex2 = lex1" "i2 = i1" by (auto split: if_splits)
    have dg: "isdigit (s ! i)"
    proof (rule ccontr)
      assume nd: "\<not> isdigit (s ! i)"
      with entry have e: "s ! i = CHR ''.''" by simp
      from nd inb have "digitLoop s i [] False = ([], i, False)" by (simp add: digitLoop_stop)
      with d1 have "i1 = i" by simp
      with nodot e inb show False by simp
    qed
    from digitLoop_enter [OF inb dg d1] have lt: "i < i1" .
    with f1 inb dg have "list_ex isdigit (slice s i i1)" by (intro list_ex_slice [of i i]) simp_all
    with eq f1 lt show ?thesis by simp
  qed
qed

lemma list_ex_take_prefix: "list_ex P xs \<Longrightarrow> list_ex P (xs @ ys)"
  by simp

lemma parseNumber_facts:
  assumes inb: "i < length s"
    and entry: "isdigit (s ! i) \<or> (s ! i = CHR ''.'' \<and> isdigit (peekChar s i 1))"
    and res: "parseNumber s i = (num, i')"
  shows "i < i' \<and> i' \<le> length s \<and> list_ex isdigit num \<and>
         (num = slice s i i' \<or> num = slice s i (Suc i'))"
proof -
  obtain lex1 i1 h1 where d1: "digitLoop s i [] False = (lex1, i1, h1)"
    by (cases "digitLoop s i [] False") auto
  obtain lex2 i2 h2 where d2:
    "(if i1 < length s \<and> s ! i1 = CHR ''.'' then digitLoop s (i1 + 1) (lex1 @ ''.'') h1
      else (lex1, i1, h1)) = (lex2, i2, h2)"
    by (cases "if i1 < length s \<and> s ! i1 = CHR ''.'' then digitLoop s (i1 + 1) (lex1 @ ''.'') h1
      else (lex1, i1, h1)") auto
  from parseNumber_mantissa [OF inb entry d1 d2]
  have m: "i < i2" "i2 \<le> length s" "lex2 = slice s i i2" "list_ex isdigit lex2" by blast+
  show ?thesis
  proof (cases "i2 < length s \<and> (s ! i2 = CHR ''e'' \<or> s ! i2 = CHR ''E'')")
    case False
    with res d1 d2 have "num = lex2" "i' = i2"
      by (auto simp: parseNumber_def Let_def)
    with m show ?thesis by simp
  next
    case ex: True
    from ex m have l3: "lex2 @ [s ! i2] = slice s i (Suc i2)"
      by (simp add: slice_snoc)
    show ?thesis
    proof (cases "i2 + 1 < length s \<and> (s ! (i2 + 1) = CHR ''+'' \<or> s ! (i2 + 1) = CHR ''-'')")
      case sign: True
      obtain lex5 i5 e where
        d5: "digitLoop s (i2 + 2) (lex2 @ [s ! i2, s ! (i2 + 1)]) False = (lex5, i5, e)"
        by (cases "digitLoop s (i2 + 2) (lex2 @ [s ! i2, s ! (i2 + 1)]) False") auto
      from res d1 d2 ex sign d5
      have out: "(num, i') = (if \<not> e then (butlast lex5, i2) else (lex5, i5))"
        by (auto simp: parseNumber_def Let_def butlast_conv_take split: if_splits)
      have "lex2 @ [s ! i2, s ! (i2 + 1)] = (lex2 @ [s ! i2]) @ [s ! Suc i2]" by simp
      also have "\<dots> = slice s i (Suc i2) @ [s ! Suc i2]" by (simp only: l3)
      also from sign m have "\<dots> = slice s i (Suc (Suc i2))" by (intro slice_snoc) simp_all
      finally have l4: "lex2 @ [s ! i2, s ! (i2 + 1)] = slice s i (i2 + 2)" by simp
      from sign have "i2 + 2 \<le> length s" by simp
      from digitLoop_facts [OF d5 this]
      have f5: "i2 + 2 \<le> i5" "i5 \<le> length s"
        "lex5 = (lex2 @ [s ! i2, s ! (i2 + 1)]) @ slice s (i2 + 2) i5" "e = (i2 + 2 < i5)"
        by simp_all
      from f5(3) m(4) have dg: "list_ex isdigit lex5" by simp
      show ?thesis
      proof (cases e)
        case True
        with out have o: "num = lex5" "i' = i5" by simp_all
        from f5(3) have "lex5 = slice s i (i2 + 2) @ slice s (i2 + 2) i5" by (simp only: l4)
        also from f5 m have "\<dots> = slice s i i5" by (intro slice_append) simp_all
        finally have "lex5 = slice s i i5" .
        with o dg f5 m show ?thesis by simp
      next
        case False
        with f5 have "lex5 = (lex2 @ [s ! i2]) @ [s ! (i2 + 1)]" by (simp add: slice_empty)
        then have "butlast lex5 = lex2 @ [s ! i2]" by (simp only: butlast_snoc)
        with out False have o: "num = lex2 @ [s ! i2]" "i' = i2" by simp_all
        from o(1) m(4) have "list_ex isdigit num" by simp
        with o l3 m show ?thesis by simp
      qed
    next
      case nosign: False
      obtain lex5 i5 e where
        d5: "digitLoop s (i2 + 1) (lex2 @ [s ! i2]) False = (lex5, i5, e)"
        by (cases "digitLoop s (i2 + 1) (lex2 @ [s ! i2]) False") auto
      from nosign have ns: "\<not> (Suc i2 < length s \<and> (s ! Suc i2 = CHR ''+'' \<or> s ! Suc i2 = CHR ''-''))"
        by simp
      from res d1 d2 ex d5
      have out: "(num, i') = (if \<not> e then (butlast lex5, i2) else (lex5, i5))"
        by (auto simp: parseNumber_def Let_def butlast_conv_take if_not_P [OF ns] split: if_splits)
      from ex have "i2 + 1 \<le> length s" by simp
      from digitLoop_facts [OF d5 this]
      have f5: "i2 + 1 \<le> i5" "i5 \<le> length s"
        "lex5 = (lex2 @ [s ! i2]) @ slice s (i2 + 1) i5" "e = (i2 + 1 < i5)"
        by simp_all
      from f5(3) m(4) have dg: "list_ex isdigit lex5" by simp
      show ?thesis
      proof (cases e)
        case True
        with out have o: "num = lex5" "i' = i5" by simp_all
        from f5(3) have "lex5 = slice s i (Suc i2) @ slice s (Suc i2) i5" by (simp only: l3 Suc_eq_plus1)
        also from f5 m have "\<dots> = slice s i i5" by (intro slice_append) simp_all
        finally have "lex5 = slice s i i5" .
        with o dg f5 m show ?thesis by simp
      next
        case False
        with f5 have "lex5 = lex2 @ [s ! i2]" by (simp add: slice_empty)
        then have "butlast lex5 = lex2" by (simp only: butlast_snoc)
        with out False have o: "num = lex2" "i' = i2" by simp_all
        with m show ?thesis by simp
      qed
    qed
  qed
qed

section \<open>The operator rule\<close>

lemma opWindow_eq:
  "opWindow code i len k s =
    (if list_all (\<lambda>j. peekChar code i j \<noteq> CHR 0x00) [k..<len]
     then s @ map (peekChar code i) [k..<len] else [])"
proof (induction code i len k s rule: opWindow.induct)
  case (1 code i len k s)
  show ?case
  proof (cases "k < len")
    case False
    then show ?thesis by (simp add: opWindow.simps [of code i len k])
  next
    case lt: True
    then have u: "[k..<len] = k # [k + 1..<len]" by (simp add: upt_conv_Cons)
    show ?thesis
    proof (cases "peekChar code i k = CHR 0x00")
      case True
      with lt u show ?thesis by (simp add: opWindow.simps [of code i len k])
    next
      case False
      from "1.IH" [OF lt refl False] lt False show ?thesis
        by (simp add: opWindow.simps [of code i len k] u)
    qed
  qed
qed

lemma ops_no_nul: "isOperatorString s \<Longrightarrow> CHR 0x00 \<notin> set s"
  by (auto simp: isOperatorString_def ops_def)

lemma ops_length: "isOperatorString s \<Longrightarrow> 0 < length s \<and> length s \<le> 3"
  by (auto simp: isOperatorString_def ops_def)

lemma window_slice:
  assumes "0 < len" and "list_all (\<lambda>j. peekChar code i j \<noteq> CHR 0x00) [0..<len]"
  shows "i + len \<le> length code \<and> map (peekChar code i) [0..<len] = slice code i (i + len)"
proof -
  from assms have "peekChar code i (len - 1) \<noteq> CHR 0x00" by (simp add: list_all_iff)
  then have "i + (len - 1) < length code" by (auto simp: peekChar_def Let_def split: if_splits)
  with assms(1) have b: "i + len \<le> length code" by simp
  have "map (peekChar code i) [0..<len] = slice code i (i + len)"
  proof (rule nth_equalityI)
    from b show "length (map (peekChar code i) [0..<len]) = length (slice code i (i + len))"
      by (simp add: slice_def)
  next
    fix j assume "j < length (map (peekChar code i) [0..<len])"
    then have j: "j < len" by simp
    with b have "peekChar code i j = code ! (i + j)" by (simp add: peekChar_def)
    with j b show "map (peekChar code i) [0..<len] ! j = slice code i (i + len) ! j"
      by (simp add: slice_nth)
  qed
  with b show ?thesis by simp
qed

lemma window_match:
  assumes "0 < len"
  shows "(opWindow code i len 0 [] \<noteq> [] \<and> isOperatorString (opWindow code i len 0 [])) = opAt code i len"
    and "opAt code i len \<Longrightarrow> opWindow code i len 0 [] = slice code i (i + len)"
proof -
  let ?w = "opWindow code i len 0 []"
  let ?ok = "list_all (\<lambda>j. peekChar code i j \<noteq> CHR 0x00) [0..<len]"
  have w: "?w = (if ?ok then map (peekChar code i) [0..<len] else [])"
    by (simp add: opWindow_eq)
  have r: "opAt code i len \<Longrightarrow> ?ok \<and> ?w = slice code i (i + len)"
  proof -
    assume a: "opAt code i len"
    then have b: "i + len \<le> length code" and o: "isOperatorString (slice code i (i + len))"
      by (simp_all add: opAt_def)
    have "?ok"
      unfolding list_all_iff
    proof
      fix j assume "j \<in> set [0..<len]"
      then have j: "j < len" by simp
      with b have e: "peekChar code i j = slice code i (i + len) ! j"
        by (simp add: peekChar_def slice_nth)
      from j b have "slice code i (i + len) ! j \<in> set (slice code i (i + len))"
        by (intro nth_mem) (simp add: slice_def)
      with ops_no_nul [OF o] e show "peekChar code i j \<noteq> CHR 0x00" by metis
    qed
    with w window_slice [OF assms] show ?thesis by simp
  qed
  then show "opAt code i len \<Longrightarrow> ?w = slice code i (i + len)" by simp
  show "(?w \<noteq> [] \<and> isOperatorString ?w) = opAt code i len"
  proof
    assume a: "?w \<noteq> [] \<and> isOperatorString ?w"
    with w have ok: ?ok by (auto split: if_splits)
    from window_slice [OF assms ok] w ok a show "opAt code i len" by (simp add: opAt_def)
  next
    assume a: "opAt code i len"
    with r have e: "?w = slice code i (i + len)" by simp
    from a assms have "slice code i (i + len) \<noteq> []" by (auto simp: opAt_def slice_def)
    with a e show "?w \<noteq> [] \<and> isOperatorString ?w" by (simp add: opAt_def)
  qed
qed

lemma matchOp_Suc:
  "matchOp code i (Suc l) =
    (if opAt code i (Suc l) then Some (slice code i (i + Suc l)) else matchOp code i l)"
  using window_match [of "Suc l" code i] by (auto simp: Let_def)

lemma matchOp_Some:
  "matchOp code i l = Some s \<Longrightarrow>
   \<exists>len. 0 < len \<and> len \<le> l \<and> s = slice code i (i + len) \<and> opAt code i len \<and>
     (\<forall>len'. len < len' \<and> len' \<le> l \<longrightarrow> \<not> opAt code i len')"
proof (induction l)
  case 0
  then show ?case by simp
next
  case (Suc l)
  show ?case
  proof (cases "opAt code i (Suc l)")
    case True
    with Suc.prems have "s = slice code i (i + Suc l)"
      by (simp only: matchOp_Suc if_True option.inject)
    with True show ?thesis by (intro exI [of _ "Suc l"]) auto
  next
    case False
    with Suc.prems have "matchOp code i l = Some s"
      by (simp only: matchOp_Suc if_False)
    from Suc.IH [OF this] obtain len where
      l: "0 < len" "len \<le> l" "s = slice code i (i + len)" "opAt code i len"
        "\<forall>len'. len < len' \<and> len' \<le> l \<longrightarrow> \<not> opAt code i len'" by blast
    from l(5) False have "\<forall>len'. len < len' \<and> len' \<le> Suc l \<longrightarrow> \<not> opAt code i len'"
      by (metis le_SucE)
    with l show ?thesis by (intro exI [of _ len]) auto
  qed
qed

lemma matchOp_None:
  "matchOp code i l = None \<Longrightarrow> 0 < len \<Longrightarrow> len \<le> l \<Longrightarrow> \<not> opAt code i len"
proof (induction l)
  case 0
  then show ?case by simp
next
  case (Suc l)
  from Suc.prems(1)
  have n: "\<not> opAt code i (Suc l)" and m: "matchOp code i l = None"
    by (auto simp only: matchOp_Suc split: if_splits)
  show ?case
  proof (cases "len = Suc l")
    case True
    with n show ?thesis by simp
  next
    case False
    with Suc.prems have "len \<le> l" by simp
    from Suc.IH [OF m Suc.prems(2) this] show ?thesis .
  qed
qed

lemma matchOp_longest:
  assumes m: "opAt code i len" and mx: "\<And>len'. len < len' \<Longrightarrow> len' \<le> 3 \<Longrightarrow> \<not> opAt code i len'"
  shows "matchOp code i 3 = Some (slice code i (i + len)) \<and> length (slice code i (i + len)) = len"
proof -
  from m have b: "i + len \<le> length code" and o: "isOperatorString (slice code i (i + len))"
    by (simp_all add: opAt_def)
  from b have ls: "length (slice code i (i + len)) = len" by (simp add: slice_def)
  with ops_length [OF o] have l: "0 < len" "len \<le> 3" by simp_all
  show ?thesis
  proof (cases "matchOp code i 3")
    case None
    from matchOp_None [OF None l] m show ?thesis by simp
  next
    case (Some s)
    from matchOp_Some [OF Some] obtain len0 where
      z: "0 < len0" "len0 \<le> 3" "s = slice code i (i + len0)" "opAt code i len0"
        "\<forall>len'. len0 < len' \<and> len' \<le> 3 \<longrightarrow> \<not> opAt code i len'" by blast
    have "len0 = len"
    proof (rule ccontr)
      assume "len0 \<noteq> len"
      then consider "len0 < len" | "len < len0" by linarith
      then show False
      proof cases
        case 1
        with z(5) l m show False by blast
      next
        case 2
        from mx [OF 2 z(2)] z(4) show False by simp
      qed
    qed
    with z Some ls show ?thesis by simp
  qed
qed

lemma keywordList_distinct: "length keywordList = 26 \<and> distinct keywordList"
  by (simp add: keywordList_def)

section \<open>One iteration of the main loop\<close>

lemma peekChar_eq:
  "peekChar s i k = c \<Longrightarrow> c \<noteq> CHR 0x00 \<Longrightarrow> i + k < length s \<and> s ! (i + k) = c"
  by (auto simp: peekChar_def Let_def split: if_splits)

lemma digit_class:
  "isdigit c \<Longrightarrow> \<not> isspace c \<and> c \<noteq> CHR ''/'' \<and> c \<noteq> CHR 0x27 \<and> c \<noteq> CHR 0x22 \<and>
     \<not> isalpha c \<and> c \<noteq> CHR ''_''"
  by (auto simp: isdigit_def isspace_def isalpha_def)

lemma dot_class:
  "\<not> isspace (CHR ''.'') \<and> \<not> isalpha (CHR ''.'')"
  by (simp add: isspace_def isalpha_def)

lemma alpha_class:
  "isalpha c \<or> c = CHR ''_'' \<Longrightarrow> \<not> isspace c \<and> c \<noteq> CHR ''/'' \<and> c \<noteq> CHR 0x27 \<and> c \<noteq> CHR 0x22"
  by (auto simp: isspace_def isalpha_def)

lemma slash_class: "\<not> isspace (CHR ''/'')"
  by (simp add: isspace_def)

lemma quote_class: "\<not> isspace (CHR 0x27) \<and> \<not> isspace (CHR 0x22)"
  by (simp add: isspace_def)

lemma scanStep_space:
  "isspace (code ! i) \<Longrightarrow>
   scanStep code i ln = (None, i + 1, if code ! i = CHR 0x0A then incLine ln else ln)"
  by (simp add: scanStep_def Let_def)

lemma scanStep_lineComment:
  "code ! i = CHR ''/'' \<Longrightarrow> peekChar code i 1 = CHR ''/'' \<Longrightarrow>
   scanStep code i ln = (None, skipLine code (i + 2), ln)"
  by (simp add: scanStep_def Let_def slash_class)

lemma scanStep_blockComment:
  "code ! i = CHR ''/'' \<Longrightarrow> peekChar code i 1 = CHR ''*'' \<Longrightarrow>
   scanStep code i ln =
     (None, if fst (skipBlock code (i + 2) ln) + 1 < length code
            then fst (skipBlock code (i + 2) ln) + 2 else fst (skipBlock code (i + 2) ln),
      snd (skipBlock code (i + 2) ln))"
  by (simp add: scanStep_def Let_def slash_class split: prod.splits)

lemma scanStep_char:
  "code ! i = CHR 0x27 \<Longrightarrow> parseCharLiteral code i ln = (lx, i1, ln1) \<Longrightarrow>
   scanStep code i ln = (Some \<lparr>lexeme = lx, type = Char, line = ln1\<rparr>, i1, ln1)"
  by (simp add: scanStep_def Let_def quote_class)

lemma scanStep_string:
  "code ! i = CHR 0x22 \<Longrightarrow> parseStringLiteral code i ln = (lx, i1, ln1) \<Longrightarrow>
   scanStep code i ln = (Some \<lparr>lexeme = lx, type = String, line = ln1\<rparr>, i1, ln1)"
  by (simp add: scanStep_def Let_def quote_class)

lemma scanStep_ident:
  "isalpha (code ! i) \<or> code ! i = CHR ''_'' \<Longrightarrow> identLoop code i [] = (ident, i1) \<Longrightarrow>
   scanStep code i ln =
     (Some \<lparr>lexeme = ident, type = (if isKeyword ident then Keyword else Identifier), line = ln\<rparr>,
      i1, ln)"
  using alpha_class [of "code ! i"] by (auto simp: scanStep_def Let_def)

lemma numberStart_class:
  "numberStart code i \<Longrightarrow>
   \<not> isspace (code ! i) \<and> code ! i \<noteq> CHR ''/'' \<and> code ! i \<noteq> CHR 0x27 \<and> code ! i \<noteq> CHR 0x22 \<and>
   \<not> isalpha (code ! i) \<and> code ! i \<noteq> CHR ''_''"
  using digit_class [of "code ! i"] dot_class by (auto simp: numberStart_def)

lemma scanStep_number:
  assumes "i < length code" and "numberStart code i" and "parseNumber code i = (num, i1)"
  shows "scanStep code i ln = (Some \<lparr>lexeme = num, type = Number, line = ln\<rparr>, i1, ln)"
proof -
  from assms(2) have e: "isdigit (code ! i) \<or> (code ! i = CHR ''.'' \<and> isdigit (peekChar code i 1))"
    by (simp add: numberStart_def)
  from parseNumber_facts [OF assms(1) e assms(3)] have d: "list_ex isdigit num" by simp
  then have "num \<noteq> []" by auto
  with d e assms(3) numberStart_class [OF assms(2)] show ?thesis
    by (simp add: scanStep_def Let_def)
qed

lemma scanStep_other:
  assumes "reachesOperatorRule code i"
  shows "scanStep code i ln =
    (case matchOp code i 3 of
       Some s \<Rightarrow> (Some \<lparr>lexeme = s, type = Operator, line = ln\<rparr>, i + length s, ln)
     | None \<Rightarrow>
         if isDelimiter (code ! i) then (Some \<lparr>lexeme = [code ! i], type = Delimiter, line = ln\<rparr>, i + 1, ln)
         else (Some \<lparr>lexeme = [code ! i], type = Unknown, line = ln\<rparr>, i + 1, ln))"
  using assms
  by (auto simp: reachesOperatorRule_def numberStart_def scanStep_def Let_def split: option.splits)

lemma scanStep_cases:
  obtains (space) "isspace (code ! i)"
  | (lineComment) "code ! i = CHR ''/''" "peekChar code i 1 = CHR ''/''"
  | (blockComment) "code ! i = CHR ''/''" "peekChar code i 1 = CHR ''*''"
  | (char) "code ! i = CHR 0x27"
  | (string) "code ! i = CHR 0x22"
  | (ident) "isalpha (code ! i) \<or> code ! i = CHR ''_''"
  | (number) "numberStart code i"
  | (other) "reachesOperatorRule code i"
  unfolding reachesOperatorRule_def Let_def by blast

lemma scanStep_facts:
  assumes inb: "i < length code" and st: "scanStep code i ln = (t, i', ln')"
  shows "i < i' \<and> i' \<le> length code \<and>
    (\<forall>tok. t = Some tok \<longrightarrow>
       line tok = ln' \<and> lexeme tok \<noteq> [] \<and>
       (type tok \<noteq> String \<and> type tok \<noteq> Char \<longrightarrow> ln' = ln) \<and>
       (type tok \<noteq> Number \<longrightarrow> lexeme tok = slice code i i') \<and>
       (type tok = Number \<longrightarrow> lexeme tok = slice code i i' \<or> lexeme tok = slice code i (Suc i')))"
proof (cases rule: scanStep_cases [of code i])
  case space
  from st inb show ?thesis by (auto simp: scanStep_space [OF space] split: if_splits)
next
  case lineComment
  from peekChar_eq [OF lineComment(2)] have "i + 2 \<le> length code" by simp
  from skipLine_facts [OF this] st show ?thesis
    by (auto simp: scanStep_lineComment [OF lineComment])
next
  case blockComment
  obtain i1 ln1 where sb: "skipBlock code (i + 2) ln = (i1, ln1)"
    by (cases "skipBlock code (i + 2) ln") auto
  from peekChar_eq [OF blockComment(2)] have "i + 2 \<le> length code" by simp
  from skipBlock_facts [OF sb this] st sb show ?thesis
    by (auto simp: scanStep_blockComment [OF blockComment] split: if_splits)
next
  case char
  obtain lx i1 ln1 where p: "parseCharLiteral code i ln = (lx, i1, ln1)"
    by (cases "parseCharLiteral code i ln") auto
  from parseCharLiteral_facts [OF inb p] st inb show ?thesis
    by (auto simp: scanStep_char [OF char p] slice_def)
next
  case string
  obtain lx i1 ln1 where p: "parseStringLiteral code i ln = (lx, i1, ln1)"
    by (cases "parseStringLiteral code i ln") auto
  from parseStringLiteral_facts [OF inb p] st inb show ?thesis
    by (auto simp: scanStep_string [OF string p] slice_def)
next
  case ident
  obtain idt i1 where p: "identLoop code i [] = (idt, i1)"
    by (cases "identLoop code i []") auto
  let ?run = "takeWhile (\<lambda>c. isalnum c \<or> c = CHR ''_'') (drop i code)"
  from inb p have r: "idt = ?run" "i1 = i + length ?run"
    by (auto simp: identLoop_takeWhile)
  from ident have "isalnum (code ! i) \<or> code ! i = CHR ''_''" by (auto simp: isalnum_def)
  with inb have "?run \<noteq> []" by (simp add: Cons_nth_drop_Suc [symmetric])
  moreover have "length ?run \<le> length (drop i code)" by (rule length_takeWhile_le)
  moreover from r have "idt = slice code i i1" by (simp only: takeWhile_slice [symmetric])
  ultimately have f: "i < i1" "i1 \<le> length code" "idt = slice code i i1" "idt \<noteq> []"
    using r inb by simp_all
  with f st show ?thesis by (auto simp: scanStep_ident [OF ident p])
next
  case number
  obtain num i1 where p: "parseNumber code i = (num, i1)"
    by (cases "parseNumber code i") auto
  from number have e: "isdigit (code ! i) \<or> (code ! i = CHR ''.'' \<and> isdigit (peekChar code i 1))"
    by (simp add: numberStart_def)
  from parseNumber_facts [OF inb e p] st show ?thesis
    by (auto simp: scanStep_number [OF inb number p])
next
  case other
  show ?thesis
  proof (cases "matchOp code i 3")
    case None
    with st inb show ?thesis
      by (auto simp: scanStep_other [OF other] slice_one split: if_splits)
  next
    case (Some s)
    from matchOp_Some [OF Some] obtain len where
      l: "0 < len" "s = slice code i (i + len)" "opAt code i len" by blast
    then have "length s = len" "i + len \<le> length code" by (auto simp: opAt_def slice_def)
    with l st Some show ?thesis
      by (auto simp: scanStep_other [OF other])
  qed
qed

lemma scanStep_decreases:
  "i < length code \<Longrightarrow> scanStep code i ln = (t, i', ln') \<Longrightarrow> length code - i' < length code - i"
  using scanStep_facts [of i code ln t i' ln'] by (simp add: diff_less_mono2)

lemma scanStep_token_line:
  "i < length code \<Longrightarrow> scanStep code i ln = (Some tok, i', ln') \<Longrightarrow> line tok = ln'"
  using scanStep_facts [of i code ln "Some tok" i' ln'] by blast

lemma scanStep_token_nonempty:
  "i < length code \<Longrightarrow> scanStep code i ln = (Some tok, i', ln') \<Longrightarrow> lexeme tok \<noteq> []"
  using scanStep_facts [of i code ln "Some tok" i' ln'] by blast


lemma loopBody_step:
  "scanStep code i ln = (t, i', ln') \<Longrightarrow>
   loopBody code (i, ln, tokens) = (i', ln', case t of None \<Rightarrow> tokens | Some tok \<Rightarrow> tokens @ [tok])"
  by (cases t) (simp_all add: loopBody_def)

section \<open>The scanner\<close>

text \<open>
  The loop \<^verbatim>\<open>while (i < n)\<close> of \<^verbatim>\<open>tokenize\<close>. It terminates because every
  iteration moves the cursor forward (\<open>scanStep_decreases\<close>).
\<close>

function tokenizeLoop :: "string \<Rightarrow> nat \<Rightarrow> int \<Rightarrow> Token list \<Rightarrow> Token list" where
  "tokenizeLoop code i ln tokens =
    (if i < length code then
       (case scanStep code i ln of
          (None, i', ln') \<Rightarrow> tokenizeLoop code i' ln' tokens
        | (Some tok, i', ln') \<Rightarrow> tokenizeLoop code i' ln' (tokens @ [tok]))
     else tokens)"
  by pat_completeness auto
termination
  by (relation "measure (\<lambda>(code, i, ln, tokens). length code - i)")
    (auto dest: scanStep_decreases [OF _ sym])

declare tokenizeLoop.simps [simp del]

definition tokenize :: "string \<Rightarrow> Token list" where
  "tokenize code = tokenizeLoop code 0 1 []"

text \<open>
  The number of times the body of the main loop runs from the cursor \<open>i\<close> and the
  line counter \<open>ln\<close>: the same loop, counting its iterations.
\<close>

function loopIterations :: "string \<Rightarrow> nat \<Rightarrow> int \<Rightarrow> nat" where
  "loopIterations code i ln =
    (if i < length code then
       (case scanStep code i ln of (t, i', ln') \<Rightarrow> Suc (loopIterations code i' ln'))
     else 0)"
  by pat_completeness auto
termination
  by (relation "measure (\<lambda>(code, i, ln). length code - i)")
    (auto dest: scanStep_decreases [OF _ sym])

declare loopIterations.simps [simp del]

text \<open>
  What each iteration of the main loop accounts for: the lexeme of the token it pushes, or,
  when it pushes none (white space, comments), the part of the input it skips.
\<close>

function scanSpans :: "string \<Rightarrow> nat \<Rightarrow> int \<Rightarrow> string list" where
  "scanSpans code i ln =
    (if i < length code then
       (case scanStep code i ln of
          (None, i', ln') \<Rightarrow> slice code i i' # scanSpans code i' ln'
        | (Some tok, i', ln') \<Rightarrow> lexeme tok # scanSpans code i' ln')
     else [])"
  by pat_completeness auto
termination
  by (relation "measure (\<lambda>(code, i, ln). length code - i)")
    (auto dest: scanStep_decreases [OF _ sym])

declare scanSpans.simps [simp del]



section \<open>Facts about the main loop\<close>

lemma tokenizeLoop_step:
  "i < length code \<Longrightarrow> scanStep code i ln = (t, i', ln') \<Longrightarrow>
   tokenizeLoop code i ln tokens =
     tokenizeLoop code i' ln' (case t of None \<Rightarrow> tokens | Some tok \<Rightarrow> tokens @ [tok])"
  by (cases t) (simp_all add: tokenizeLoop.simps [of code i])

lemma tokenizeLoop_stop: "\<not> i < length code \<Longrightarrow> tokenizeLoop code i ln tokens = tokens"
  by (simp add: tokenizeLoop.simps [of code i])

lemma tokenizeLoop_invariant:
  assumes init: "P i ln tokens"
    and step: "\<And>i ln tokens t i' ln'. P i ln tokens \<Longrightarrow> i < length code \<Longrightarrow>
      scanStep code i ln = (t, i', ln') \<Longrightarrow>
      P i' ln' (case t of None \<Rightarrow> tokens | Some tok \<Rightarrow> tokens @ [tok])"
  shows "\<exists>i' ln'. length code \<le> i' \<and> P i' ln' (tokenizeLoop code i ln tokens)"
  using init
proof (induction "length code - i" arbitrary: i ln tokens rule: less_induct)
  case less
  show ?case
  proof (cases "i < length code")
    case False
    with less.prems show ?thesis
      by (intro exI [of _ i] exI [of _ ln]) (simp add: tokenizeLoop_stop)
  next
    case True
    obtain t i' ln' where s: "scanStep code i ln = (t, i', ln')"
      by (cases "scanStep code i ln") auto
    from step [OF less.prems True s]
    have p: "P i' ln' (case t of None \<Rightarrow> tokens | Some tok \<Rightarrow> tokens @ [tok])" .
    from less.hyps [OF scanStep_decreases [OF True s] p] tokenizeLoop_step [OF True s]
    show ?thesis by simp
  qed
qed

lemma loopIterations_step:
  "i < length code \<Longrightarrow> scanStep code i ln = (t, i', ln') \<Longrightarrow>
   loopIterations code i ln = Suc (loopIterations code i' ln')"
  by (simp add: loopIterations.simps [of code i])

lemma loopIterations_stop: "\<not> i < length code \<Longrightarrow> loopIterations code i ln = 0"
  by (simp add: loopIterations.simps [of code i])

lemma loopIterations_bound: "loopIterations code i ln \<le> length code - i"
proof (induction "length code - i" arbitrary: i ln rule: less_induct)
  case less
  show ?case
  proof (cases "i < length code")
    case False
    then show ?thesis by (simp add: loopIterations_stop)
  next
    case True
    obtain t i' ln' where s: "scanStep code i ln = (t, i', ln')"
      by (cases "scanStep code i ln") auto
    from scanStep_decreases [OF True s] have d: "length code - i' < length code - i" .
    from less.hyps [OF d, of ln'] d loopIterations_step [OF True s] show ?thesis by simp
  qed
qed

lemma tokenizeLoop_funpow:
  "\<exists>i' ln'. (loopBody code ^^ loopIterations code i ln) (i, ln, tokens) =
      (i', ln', tokenizeLoop code i ln tokens) \<and> length code \<le> i'"
proof (induction "length code - i" arbitrary: i ln tokens rule: less_induct)
  case less
  show ?case
  proof (cases "i < length code")
    case False
    then show ?thesis by (simp add: loopIterations_stop tokenizeLoop_stop)
  next
    case True
    obtain t i' ln' where s: "scanStep code i ln = (t, i', ln')"
      by (cases "scanStep code i ln") auto
    let ?toks = "case t of None \<Rightarrow> tokens | Some tok \<Rightarrow> tokens @ [tok]"
    from less.hyps [OF scanStep_decreases [OF True s], of ln' ?toks]
    obtain j lj where
      "(loopBody code ^^ loopIterations code i' ln') (i', ln', ?toks) =
         (j, lj, tokenizeLoop code i' ln' ?toks)" "length code \<le> j" by blast
    then show ?thesis
      by (simp add: loopIterations_step [OF True s] tokenizeLoop_step [OF True s]
          funpow_swap1 loopBody_step [OF s])
  qed
qed

lemma funpow_cursor_inside:
  "j < loopIterations code i ln \<Longrightarrow> fst ((loopBody code ^^ j) (i, ln, tokens)) < length code"
proof (induction j arbitrary: i ln tokens)
  case 0
  then show ?case by (cases "i < length code") (simp_all add: loopIterations_stop)
next
  case (Suc j)
  from Suc.prems have True: "i < length code"
    by (cases "i < length code") (simp_all add: loopIterations_stop)
  obtain t i' ln' where s: "scanStep code i ln = (t, i', ln')"
    by (cases "scanStep code i ln") auto
  from Suc.prems loopIterations_step [OF True s] have "j < loopIterations code i' ln'" by simp
  from Suc.IH [OF this] show ?case
    by (simp add: funpow_swap1 loopBody_step [OF s])
qed

lemma tokenizeLoop_nonempty:
  assumes "\<forall>t\<in>set tokens. lexeme t \<noteq> []"
  shows "\<forall>t\<in>set (tokenizeLoop code i ln tokens). lexeme t \<noteq> []"
proof -
  let ?P = "\<lambda>(i::nat) (ln::int) (tokens::Token list). \<forall>t\<in>set tokens. lexeme t \<noteq> []"
  have "\<exists>i' ln'. length code \<le> i' \<and> ?P i' ln' (tokenizeLoop code i ln tokens)"
  proof (rule tokenizeLoop_invariant [where P = ?P])
    from assms show "?P i ln tokens" .
  next
    fix i ln t i' ln' and tokens :: "Token list"
    assume p: "?P i ln tokens" and inb: "i < length code" and s: "scanStep code i ln = (t, i', ln')"
    from scanStep_token_nonempty [OF inb] s
    have f: "\<forall>tok. t = Some tok \<longrightarrow> lexeme tok \<noteq> []" by blast
    with p show "?P i' ln' (case t of None \<Rightarrow> tokens | Some tok \<Rightarrow> tokens @ [tok])"
      by (cases t) auto
  qed
  then show ?thesis by blast
qed

lemma scanSpans_step:
  "i < length code \<Longrightarrow> scanStep code i ln = (t, i', ln') \<Longrightarrow>
   scanSpans code i ln =
     (case t of None \<Rightarrow> slice code i i' | Some tok \<Rightarrow> lexeme tok) # scanSpans code i' ln'"
  by (cases t) (simp_all add: scanSpans.simps [of code i])

lemma scanSpans_stop: "\<not> i < length code \<Longrightarrow> scanSpans code i ln = []"
  by (simp add: scanSpans.simps [of code i])

lemma scanSpans_reconstruct:
  assumes exact: "\<And>j. j < length code \<Longrightarrow> numberStart code j \<Longrightarrow>
      fst (parseNumber code j) = slice code j (snd (parseNumber code j))"
  shows "i \<le> length code \<Longrightarrow> concat (scanSpans code i ln) = drop i code"
proof (induction "length code - i" arbitrary: i ln rule: less_induct)
  case less
  show ?case
  proof (cases "i < length code")
    case False
    with less.prems show ?thesis by (simp add: scanSpans_stop)
  next
    case True
    obtain t i' ln' where s: "scanStep code i ln = (t, i', ln')"
      by (cases "scanStep code i ln") auto
    from scanStep_facts [OF True s] have adv: "i < i'" "i' \<le> length code" by blast+
    have span: "(case t of None \<Rightarrow> slice code i i' | Some tok \<Rightarrow> lexeme tok) = slice code i i'"
    proof (cases t)
      case None
      then show ?thesis by simp
    next
      case (Some tok)
      have "lexeme tok = slice code i i'"
      proof (cases "numberStart code i")
        case False
        have "type tok \<noteq> Number"
        proof (cases rule: scanStep_cases [of code i])
          case space
          with s Some show ?thesis by (simp add: scanStep_space)
        next
          case lineComment
          with s Some show ?thesis by (simp add: scanStep_lineComment)
        next
          case blockComment
          with s Some show ?thesis by (simp add: scanStep_blockComment)
        next
          case char
          obtain lx i1 ln1 where p: "parseCharLiteral code i ln = (lx, i1, ln1)"
            by (cases "parseCharLiteral code i ln") auto
          from s Some show ?thesis by (auto simp: scanStep_char [OF char p])
        next
          case string
          obtain lx i1 ln1 where p: "parseStringLiteral code i ln = (lx, i1, ln1)"
            by (cases "parseStringLiteral code i ln") auto
          from s Some show ?thesis by (auto simp: scanStep_string [OF string p])
        next
          case ident
          obtain idt i1 where p: "identLoop code i [] = (idt, i1)"
            by (cases "identLoop code i []") auto
          from s Some show ?thesis by (auto simp: scanStep_ident [OF ident p] split: if_splits)
        next
          case number
          with False show ?thesis by simp
        next
          case other
          from s Some show ?thesis
            by (auto simp: scanStep_other [OF other] split: option.splits if_splits)
        qed
        with scanStep_facts [OF True s] Some show ?thesis by blast
      next
        case ns: True
        obtain num i1 where p: "parseNumber code i = (num, i1)"
          by (cases "parseNumber code i") auto
        from s Some have "lexeme tok = num" "i' = i1"
          by (auto simp: scanStep_number [OF True ns p])
        with exact [OF True ns] p show ?thesis by simp
      qed
      with Some show ?thesis by simp
    qed
    from adv True have "length code - i' < length code - i" by simp
    from less.hyps [OF this adv(2), of ln'] span adv show ?thesis
      by (simp add: scanSpans_step [OF True s] slice_drop)
  qed
qed

section \<open>Line numbers\<close>

lemma noEscapedLF_nth:
  "noEscapedLF code \<Longrightarrow> Suc j < length code \<Longrightarrow> code ! j = CHR 0x5C \<Longrightarrow> code ! Suc j \<noteq> CHR 0x0A"
  by (auto simp: noEscapedLF_def list_all_iff)

lemma incLine_no_wrap: "- 2147483648 \<le> ln \<Longrightarrow> ln < 2147483647 \<Longrightarrow> incLine ln = ln + 1"
  by (simp add: incLine_def)

lemma incLine_wrap: "incLine 2147483647 = - 2147483648"
  by (simp add: incLine_def)

lemma incLine_funpow:
  "- 2147483648 \<le> ln \<Longrightarrow> ln + int k \<le> 2147483647 \<Longrightarrow> (incLine ^^ k) ln = ln + int k"
proof (induction k)
  case 0
  then show ?case by simp
next
  case (Suc k)
  then have "(incLine ^^ k) ln = ln + int k" by simp
  moreover from Suc.prems have "incLine (ln + int k) = ln + int k + 1"
    by (intro incLine_no_wrap) simp_all
  ultimately show ?case by simp
qed

lemma count_slice_le: "j \<le> length s \<Longrightarrow> count_list (slice s i j) c \<le> j - i"
  using count_le_length [of "slice s i j" c] by (simp add: slice_def)




lemma stringLoop_lines:
  "stringLoop s i ln lx = (lx', i', ln') \<Longrightarrow> i \<le> length s \<Longrightarrow>
   \<exists>k. k \<le> i' - i \<and> ln' = (incLine ^^ k) ln \<and>
     (noEscapedLF s \<longrightarrow> k = count_list (slice s i i') (CHR 0x0A))"
proof (induction "length s - i" arbitrary: i ln lx rule: less_induct)
  case less
  note r = less.prems(1)
  show ?case
  proof (cases "i < length s")
    case False
    with r have "i' = i" "ln' = ln" by (simp_all add: stringLoop_stop)
    then show ?thesis by (intro exI [of _ 0]) (simp add: slice_empty)
  next
    case inb: True
    consider (esc2) "s ! i = CHR 0x5C" "i + 1 < length s"
      | (esc1) "s ! i = CHR 0x5C" "\<not> i + 1 < length s"
      | (quote) "s ! i = CHR 0x22"
      | (newline) "s ! i = CHR 0x0A"
      | (other) "s ! i \<noteq> CHR 0x5C" "s ! i \<noteq> CHR 0x22" "s ! i \<noteq> CHR 0x0A"
      by blast
    then show ?thesis
    proof cases
      case esc2
      with r have q: "stringLoop s (i + 2) ln (lx @ [s ! i, s ! (i + 1)]) = (lx', i', ln')"
        by (simp add: stringLoop_escape2)
      from esc2 have d: "length s - (i + 2) < length s - i" and b: "i + 2 \<le> length s" by simp_all
      from stringLoop_facts [OF q b] have adv: "i + 2 \<le> i'" "i' \<le> length s" by blast+
      from less.hyps [OF d q b] obtain k where
        k: "k \<le> i' - (i + 2)" "ln' = (incLine ^^ k) ln"
          "noEscapedLF s \<longrightarrow> k = count_list (slice s (i + 2) i') (CHR 0x0A)" by blast
      from adv esc2 have sl: "slice s i i' = s ! i # s ! (i + 1) # slice s (i + 2) i'"
        by (simp add: slice_cons)
      have "noEscapedLF s \<longrightarrow> k = count_list (slice s i i') (CHR 0x0A)"
      proof
        assume ne: "noEscapedLF s"
        from noEscapedLF_nth [OF ne, of i] esc2 have "s ! (i + 1) \<noteq> CHR 0x0A" by simp
        with k(3) ne sl esc2(1) show "k = count_list (slice s i i') (CHR 0x0A)" by simp
      qed
      with k adv show ?thesis by (intro exI [of _ k]) simp
    next
      case esc1
      with r inb have q: "stringLoop s (i + 1) ln (lx @ [s ! i]) = (lx', i', ln')"
        by (simp add: stringLoop_escape1)
      from inb have d: "length s - (i + 1) < length s - i" and b: "i + 1 \<le> length s" by simp_all
      from stringLoop_facts [OF q b] have adv: "i + 1 \<le> i'" "i' \<le> length s" by blast+
      from less.hyps [OF d q b] obtain k where
        k: "k \<le> i' - (i + 1)" "ln' = (incLine ^^ k) ln"
          "noEscapedLF s \<longrightarrow> k = count_list (slice s (i + 1) i') (CHR 0x0A)" by blast
      from adv inb have sl: "slice s i i' = s ! i # slice s (Suc i) i'" by (simp add: slice_cons)
      with k(3) esc1(1) have "noEscapedLF s \<longrightarrow> k = count_list (slice s i i') (CHR 0x0A)" by simp
      with k adv show ?thesis by (intro exI [of _ k]) simp
    next
      case quote
      with r inb have "i' = i + 1" "ln' = ln" by (simp_all add: stringLoop_quote)
      with inb quote show ?thesis by (intro exI [of _ 0]) (simp add: slice_one)
    next
      case newline
      with r inb have q: "stringLoop s (i + 1) (incLine ln) (lx @ [s ! i]) = (lx', i', ln')"
        by (simp add: stringLoop_newline)
      from inb have d: "length s - (i + 1) < length s - i" and b: "i + 1 \<le> length s" by simp_all
      from stringLoop_facts [OF q b] have adv: "i + 1 \<le> i'" "i' \<le> length s" by blast+
      from less.hyps [OF d q b] obtain k where
        k: "k \<le> i' - (i + 1)" "ln' = (incLine ^^ k) (incLine ln)"
          "noEscapedLF s \<longrightarrow> k = count_list (slice s (i + 1) i') (CHR 0x0A)" by blast
      from adv inb have sl: "slice s i i' = s ! i # slice s (Suc i) i'" by (simp add: slice_cons)
      with k(3) newline have c: "noEscapedLF s \<longrightarrow> Suc k = count_list (slice s i i') (CHR 0x0A)"
        by simp
      from k(2) have "ln' = (incLine ^^ Suc k) ln" by (simp add: funpow_swap1)
      with k(1) adv c show ?thesis by (intro exI [of _ "Suc k"]) simp
    next
      case other
      with r inb have q: "stringLoop s (i + 1) ln (lx @ [s ! i]) = (lx', i', ln')"
        by (simp add: stringLoop_other)
      from inb have d: "length s - (i + 1) < length s - i" and b: "i + 1 \<le> length s" by simp_all
      from stringLoop_facts [OF q b] have adv: "i + 1 \<le> i'" "i' \<le> length s" by blast+
      from less.hyps [OF d q b] obtain k where
        k: "k \<le> i' - (i + 1)" "ln' = (incLine ^^ k) ln"
          "noEscapedLF s \<longrightarrow> k = count_list (slice s (i + 1) i') (CHR 0x0A)" by blast
      from adv inb have sl: "slice s i i' = s ! i # slice s (Suc i) i'" by (simp add: slice_cons)
      with k(3) other(3) have "noEscapedLF s \<longrightarrow> k = count_list (slice s i i') (CHR 0x0A)" by simp
      with k adv show ?thesis by (intro exI [of _ k]) simp
    qed
  qed
qed

lemma skipBlock_lines:
  "skipBlock s i ln = (i', ln') \<Longrightarrow> i \<le> length s \<Longrightarrow>
   ln' = (incLine ^^ count_list (slice s i i') (CHR 0x0A)) ln"
proof (induction "length s - i" arbitrary: i ln rule: less_induct)
  case less
  note r = less.prems(1)
  show ?case
  proof (cases "i + 1 < length s \<and> \<not> (s ! i = CHR ''*'' \<and> s ! (i + 1) = CHR ''/'')")
    case False
    from r skipBlock_stop [OF False, of ln] show ?thesis by (simp add: slice_empty)
  next
    case True
    let ?ln = "if s ! i = CHR 0x0A then incLine ln else ln"
    from True r have q: "skipBlock s (i + 1) ?ln = (i', ln')"
      using skipBlock_step [of i s ln] by simp
    from True have d: "length s - (i + 1) < length s - i" and b: "i + 1 \<le> length s" by auto
    from skipBlock_facts [OF q b] have adv: "i + 1 \<le> i'" "i' \<le> length s" by blast+
    from less.hyps [OF d q b]
    have ih: "ln' = (incLine ^^ count_list (slice s (i + 1) i') (CHR 0x0A)) ?ln" .
    from adv True have sl: "slice s i i' = s ! i # slice s (Suc i) i'" by (simp add: slice_cons)
    from ih sl show ?thesis by (simp add: funpow_swap1)
  qed
qed

lemma skipLine_no_lf: "i \<le> length s \<Longrightarrow> CHR 0x0A \<notin> set (slice s i (skipLine s i))"
proof (induction "length s - i" arbitrary: i rule: less_induct)
  case less
  show ?case
  proof (cases "i < length s \<and> s ! i \<noteq> CHR 0x0A")
    case False
    then show ?thesis by (simp add: skipLine_stop slice_empty)
  next
    case True
    then have d: "length s - (i + 1) < length s - i" and b: "i + 1 \<le> length s" by auto
    from skipLine_facts [OF b] have adv: "i + 1 \<le> skipLine s (i + 1)" by simp
    from True have e: "skipLine s i = skipLine s (i + 1)" by (simp add: skipLine_step)
    from adv True have "slice s i (skipLine s (i + 1)) = s ! i # slice s (Suc i) (skipLine s (i + 1))"
      by (simp add: slice_cons)
    with less.hyps [OF d b] True e show ?thesis by auto
  qed
qed

lemma parseCharLiteral_inc:
  "parseCharLiteral s i ln = (lx, i', ln') \<Longrightarrow> ln' = ln \<or> ln' = incLine ln"
  by (auto simp: parseCharLiteral_def Let_def split: if_splits)

lemma parseCharLiteral_count:
  assumes "i < length s" and "s ! i = CHR 0x27" and "noEscapedLF s"
    and "parseCharLiteral s i ln = (lx, i', ln')"
  shows "ln' = (incLine ^^ count_list lx (CHR 0x0A)) ln"
  using assms(1,2,4) noEscapedLF_nth [OF assms(3), of "Suc i"]
  by (auto simp: parseCharLiteral_def Let_def split: if_splits)

lemma parseCharLiteral_lines:
  assumes inb: "i < length s" and q: "s ! i = CHR 0x27"
    and p: "parseCharLiteral s i ln = (lx, i', ln')"
  shows "\<exists>k. k \<le> i' - i \<and> ln' = (incLine ^^ k) ln \<and>
     (noEscapedLF s \<longrightarrow> k = count_list (slice s i i') (CHR 0x0A))"
proof (cases "noEscapedLF s")
  case True
  from parseCharLiteral_facts [OF inb p] have f: "i' \<le> length s" "lx = slice s i i'" by blast+
  from parseCharLiteral_count [OF inb q True p] f
  have "ln' = (incLine ^^ count_list (slice s i i') (CHR 0x0A)) ln" by simp
  with count_slice_le [OF f(1), of i "CHR 0x0A"] show ?thesis
    by (intro exI [of _ "count_list (slice s i i') (CHR 0x0A)"]) simp
next
  case False
  from parseCharLiteral_facts [OF inb p] have f: "i < i'" by blast
  from parseCharLiteral_inc [OF p] show ?thesis
  proof
    assume "ln' = ln"
    with False show ?thesis by (intro exI [of _ 0]) simp
  next
    assume "ln' = incLine ln"
    with False f show ?thesis by (intro exI [of _ 1]) simp
  qed
qed

lemma parseStringLiteral_lines:
  assumes inb: "i < length s" and q: "s ! i = CHR 0x22"
    and p: "parseStringLiteral s i ln = (lx, i', ln')"
  shows "\<exists>k. k \<le> i' - i \<and> ln' = (incLine ^^ k) ln \<and>
     (noEscapedLF s \<longrightarrow> k = count_list (slice s i i') (CHR 0x0A))"
proof -
  from p have r: "stringLoop s (i + 1) ln [s ! i] = (lx, i', ln')"
    by (simp add: parseStringLiteral_def)
  from inb have b: "i + 1 \<le> length s" by simp
  from stringLoop_facts [OF r b] have adv: "i + 1 \<le> i'" by blast
  from stringLoop_lines [OF r b] obtain k where
    k: "k \<le> i' - (i + 1)" "ln' = (incLine ^^ k) ln"
      "noEscapedLF s \<longrightarrow> k = count_list (slice s (i + 1) i') (CHR 0x0A)" by blast
  from adv inb have "slice s i i' = s ! i # slice s (Suc i) i'" by (simp add: slice_cons)
  with k(3) q have "noEscapedLF s \<longrightarrow> k = count_list (slice s i i') (CHR 0x0A)" by simp
  with k show ?thesis by (intro exI [of _ k]) simp
qed

lemma digitLoop_no_lf:
  "digitLoop s i lx f = (lx', i', f') \<Longrightarrow> CHR 0x0A \<notin> set lx \<Longrightarrow> CHR 0x0A \<notin> set lx'"
proof (induction s i lx f rule: digitLoop.induct)
  case (1 s i lx flag)
  show ?case
  proof (cases "i < length s \<and> isdigit (s ! i)")
    case True
    with "1.prems" have r: "digitLoop s (i + 1) (lx @ [s ! i]) True = (lx', i', f')"
      by (simp add: digitLoop_step)
    from True have "s ! i \<noteq> CHR 0x0A" by (auto simp: isdigit_def)
    with "1.prems"(2) have "CHR 0x0A \<notin> set (lx @ [s ! i])" by simp
    from "1.IH" [OF True r this] show ?thesis .
  next
    case False
    from "1.prems" digitLoop_stop [OF False, of lx flag] show ?thesis by simp
  qed
qed

lemma parseNumber_no_lf: "parseNumber s i = (num, i') \<Longrightarrow> CHR 0x0A \<notin> set num"
proof -
  assume res: "parseNumber s i = (num, i')"
  obtain lex1 i1 h1 where d1: "digitLoop s i [] False = (lex1, i1, h1)"
    by (cases "digitLoop s i [] False") auto
  from digitLoop_no_lf [OF d1] have n1: "CHR 0x0A \<notin> set lex1" by simp
  obtain lex2 i2 h2 where d2:
    "(if i1 < length s \<and> s ! i1 = CHR ''.'' then digitLoop s (i1 + 1) (lex1 @ ''.'') h1
      else (lex1, i1, h1)) = (lex2, i2, h2)"
    by (cases "if i1 < length s \<and> s ! i1 = CHR ''.'' then digitLoop s (i1 + 1) (lex1 @ ''.'') h1
      else (lex1, i1, h1)") auto
  have n2: "CHR 0x0A \<notin> set lex2"
  proof (cases "i1 < length s \<and> s ! i1 = CHR ''.''")
    case True
    with d2 have "digitLoop s (i1 + 1) (lex1 @ ''.'') h1 = (lex2, i2, h2)" by simp
    from digitLoop_no_lf [OF this] n1 show ?thesis by simp
  next
    case False
    with d2 n1 show ?thesis by (auto split: if_splits)
  qed
  show ?thesis
  proof (cases "i2 < length s \<and> (s ! i2 = CHR ''e'' \<or> s ! i2 = CHR ''E'')")
    case False
    with res d1 d2 have "num = lex2" by (auto simp: parseNumber_def Let_def)
    with n2 show ?thesis by simp
  next
    case ex: True
    then have n3: "CHR 0x0A \<notin> set (lex2 @ [s ! i2])" using n2 by auto
    show ?thesis
    proof (cases "i2 + 1 < length s \<and> (s ! (i2 + 1) = CHR ''+'' \<or> s ! (i2 + 1) = CHR ''-'')")
      case sign: True
      obtain lex5 i5 e where
        d5: "digitLoop s (i2 + 2) (lex2 @ [s ! i2, s ! (i2 + 1)]) False = (lex5, i5, e)"
        by (cases "digitLoop s (i2 + 2) (lex2 @ [s ! i2, s ! (i2 + 1)]) False") auto
      from res d1 d2 ex sign d5
      have out: "(num, i') = (if \<not> e then (butlast lex5, i2) else (lex5, i5))"
        by (auto simp: parseNumber_def Let_def butlast_conv_take split: if_splits)
      from sign n3 have "CHR 0x0A \<notin> set (lex2 @ [s ! i2, s ! (i2 + 1)])" by auto
      from digitLoop_no_lf [OF d5 this] have "CHR 0x0A \<notin> set lex5" .
      with out show ?thesis by (auto split: if_splits dest: in_set_butlastD)
    next
      case nosign: False
      obtain lex5 i5 e where
        d5: "digitLoop s (i2 + 1) (lex2 @ [s ! i2]) False = (lex5, i5, e)"
        by (cases "digitLoop s (i2 + 1) (lex2 @ [s ! i2]) False") auto
      from nosign have ns: "\<not> (Suc i2 < length s \<and> (s ! Suc i2 = CHR ''+'' \<or> s ! Suc i2 = CHR ''-''))"
        by simp
      from res d1 d2 ex d5
      have out: "(num, i') = (if \<not> e then (butlast lex5, i2) else (lex5, i5))"
        by (auto simp: parseNumber_def Let_def butlast_conv_take if_not_P [OF ns] split: if_splits)
      from digitLoop_no_lf [OF d5 n3] have "CHR 0x0A \<notin> set lex5" .
      with out show ?thesis by (auto split: if_splits dest: in_set_butlastD)
    qed
  qed
qed

lemma ops_no_lf: "isOperatorString s \<Longrightarrow> CHR 0x0A \<notin> set s"
  by (auto simp: isOperatorString_def ops_def)

lemma identRun_no_lf: "CHR 0x0A \<notin> set (identRun code i)"
proof
  assume "CHR 0x0A \<in> set (identRun code i)"
  then have "isalnum (CHR 0x0A) \<or> CHR 0x0A = CHR ''_''"
    unfolding identRun_def by (rule set_takeWhileD [THEN conjunct2])
  then show False by (simp add: isalnum_def isalpha_def isdigit_def)
qed

lemma slice_subset_Suc: "set (slice s i j) \<subseteq> set (slice s i (Suc j))"
  unfolding slice_def by (rule set_take_subset_set_take) simp

lemma scanStep_lines:
  assumes inb: "i < length code" and st: "scanStep code i ln = (t, i', ln')"
  shows "\<exists>k. k \<le> i' - i \<and> ln' = (incLine ^^ k) ln \<and>
     (noEscapedLF code \<longrightarrow> k = count_list (slice code i i') (CHR 0x0A))"
proof -
  have zero: "ln' = ln \<Longrightarrow> CHR 0x0A \<notin> set (slice code i i') \<Longrightarrow> ?thesis"
    by (intro exI [of _ 0]) simp
  from scanStep_facts [OF inb st] have adv: "i < i'" "i' \<le> length code" by blast+
  show ?thesis
  proof (cases rule: scanStep_cases [of code i])
    case space
    with st have e: "i' = i + 1" "ln' = (if code ! i = CHR 0x0A then incLine ln else ln)"
      by (simp_all add: scanStep_space)
    with inb show ?thesis
      by (intro exI [of _ "if code ! i = CHR 0x0A then 1 else 0"]) (simp add: slice_one)
  next
    case lineComment
    from peekChar_eq [OF lineComment(2)] have b: "i + 2 \<le> length code" "code ! (i + 1) = CHR ''/''"
      by simp_all
    from st have e: "i' = skipLine code (i + 2)" "ln' = ln"
      by (simp_all add: scanStep_lineComment [OF lineComment])
    from skipLine_facts [OF b(1)] have "i + 2 \<le> skipLine code (i + 2)" by simp
    with b inb have "slice code i (skipLine code (i + 2)) =
        code ! i # code ! (i + 1) # slice code (i + 2) (skipLine code (i + 2))"
      by (simp add: slice_cons)
    with skipLine_no_lf [OF b(1)] lineComment(1) b(2) e
    have "CHR 0x0A \<notin> set (slice code i i')" by simp
    with e show ?thesis by (intro zero)
  next
    case blockComment
    obtain i1 ln1 where sb: "skipBlock code (i + 2) ln = (i1, ln1)"
      by (cases "skipBlock code (i + 2) ln") auto
    from peekChar_eq [OF blockComment(2)] have b: "i + 2 \<le> length code" "code ! (i + 1) = CHR ''*''"
      by simp_all
    from skipBlock_facts [OF sb b(1)]
    have f: "i + 2 \<le> i1" "i1 \<le> length code"
      "i1 + 1 < length code \<longrightarrow> code ! i1 = CHR ''*'' \<and> code ! (i1 + 1) = CHR ''/''" by blast+
    from sb have fs: "fst (skipBlock code (i + 2) ln) = i1" "snd (skipBlock code (i + 2) ln) = ln1"
      by simp_all
    note sc = scanStep_blockComment [OF blockComment, of ln, unfolded fs]
    from st sc have e: "i' = (if i1 + 1 < length code then i1 + 2 else i1)" "ln' = ln1"
      by simp_all
    from skipBlock_lines [OF sb b(1)]
    have l: "ln1 = (incLine ^^ count_list (slice code (i + 2) i1) (CHR 0x0A)) ln" .
    from b f inb have s1: "slice code i i1 = code ! i # code ! (i + 1) # slice code (i + 2) i1"
      by (simp add: slice_cons)
    have s2: "count_list (slice code i i') (CHR 0x0A) = count_list (slice code i1 i') (CHR 0x0A) +
        count_list (slice code (i + 2) i1) (CHR 0x0A)"
    proof -
      from f e have "i \<le> i1" "i1 \<le> i'" by (auto split: if_splits)
      then have "slice code i i' = slice code i i1 @ slice code i1 i'" by (simp add: slice_append)
      with s1 blockComment(1) b(2) show ?thesis by simp
    qed
    have s3: "count_list (slice code i1 i') (CHR 0x0A) = 0"
    proof (cases "i1 + 1 < length code")
      case True
      with e have "slice code i1 i' = [code ! i1, code ! Suc i1]" by (simp add: slice_two)
      with f(3) True show ?thesis by simp
    next
      case False
      with e show ?thesis by (simp add: slice_empty)
    qed
    from s2 s3 l e have "ln' = (incLine ^^ count_list (slice code i i') (CHR 0x0A)) ln" by simp
    with count_slice_le [OF adv(2), of i "CHR 0x0A"] show ?thesis
      by (intro exI [of _ "count_list (slice code i i') (CHR 0x0A)"]) simp
  next
    case char
    obtain lx i1 ln1 where p: "parseCharLiteral code i ln = (lx, i1, ln1)"
      by (cases "parseCharLiteral code i ln") auto
    from st have "i' = i1" "ln' = ln1" by (simp_all add: scanStep_char [OF char p])
    with parseCharLiteral_lines [OF inb char p] show ?thesis by simp
  next
    case string
    obtain lx i1 ln1 where p: "parseStringLiteral code i ln = (lx, i1, ln1)"
      by (cases "parseStringLiteral code i ln") auto
    from st have "i' = i1" "ln' = ln1" by (simp_all add: scanStep_string [OF string p])
    with parseStringLiteral_lines [OF inb string p] show ?thesis by simp
  next
    case ident
    from inb have il: "identLoop code i [] = (identRun code i, i + length (identRun code i))"
      by (simp add: identLoop_takeWhile identRun_def)
    from st have e: "i' = i + length (identRun code i)" "ln' = ln"
      by (simp_all add: scanStep_ident [OF ident il])
    have "identRun code i = slice code i (i + length (identRun code i))"
      unfolding identRun_def by (rule takeWhile_slice)
    with identRun_no_lf [of code i] e have "CHR 0x0A \<notin> set (slice code i i')" by simp
    with e show ?thesis by (intro zero)
  next
    case number
    obtain num i1 where p: "parseNumber code i = (num, i1)"
      by (cases "parseNumber code i") auto
    from number have en: "isdigit (code ! i) \<or> (code ! i = CHR ''.'' \<and> isdigit (peekChar code i 1))"
      by (simp add: numberStart_def)
    from st have e: "i' = i1" "ln' = ln" by (simp_all add: scanStep_number [OF inb number p])
    from parseNumber_facts [OF inb en p]
    have "num = slice code i i1 \<or> num = slice code i (Suc i1)" by blast
    with slice_subset_Suc [of code i i1] have "set (slice code i i1) \<subseteq> set num" by auto
    with parseNumber_no_lf [OF p] e have "CHR 0x0A \<notin> set (slice code i i')" by auto
    with e show ?thesis by (intro zero)
  next
    case other
    then have ns: "\<not> isspace (code ! i)" by (simp add: reachesOperatorRule_def Let_def)
    then have nl: "code ! i \<noteq> CHR 0x0A" by (auto simp: isspace_def)
    show ?thesis
    proof (cases "matchOp code i 3")
      case None
      with st have e: "i' = i + 1" "ln' = ln"
        by (auto simp: scanStep_other [OF other] split: if_splits)
      with inb nl have "CHR 0x0A \<notin> set (slice code i i')" by (simp add: slice_one)
      with e show ?thesis by (intro zero)
    next
      case (Some s)
      from matchOp_Some [OF Some] obtain len where
        l: "s = slice code i (i + len)" "opAt code i len" by blast
      then have "length s = len" by (auto simp: opAt_def slice_def)
      with st Some have e: "i' = i + len" "ln' = ln" by (simp_all add: scanStep_other [OF other])
      from l have "isOperatorString (slice code i (i + len))" by (simp add: opAt_def)
      from ops_no_lf [OF this] e have "CHR 0x0A \<notin> set (slice code i i')" by simp
      with e show ?thesis by (intro zero)
    qed
  qed
qed

lemma scanStep_line_step:
  assumes inb: "i < length code" and st: "scanStep code i ln = (t, i', ln')"
    and small: "length code < 2147483647" and lo: "1 \<le> ln" and hi: "ln \<le> 1 + int i"
  shows "ln \<le> ln' \<and> ln' \<le> 1 + int i' \<and>
    (noEscapedLF code \<longrightarrow> ln' = ln + int (count_list (slice code i i') (CHR 0x0A)))"
proof -
  from scanStep_facts [OF inb st] have adv: "i < i'" "i' \<le> length code" by blast+
  from scanStep_lines [OF inb st] obtain k where
    k: "k \<le> i' - i" "ln' = (incLine ^^ k) ln"
      "noEscapedLF code \<longrightarrow> k = count_list (slice code i i') (CHR 0x0A)" by blast
  from k(1) adv hi have b: "ln + int k \<le> 1 + int i'" by linarith
  with adv small have "ln + int k \<le> 2147483647" by linarith
  moreover from lo have "- 2147483648 \<le> ln" by simp
  ultimately have "(incLine ^^ k) ln = ln + int k" by (intro incLine_funpow)
  with k b show ?thesis by simp
qed

lemma tokenizeLoop_lines:
  assumes small: "length code < 2147483647"
    and "i \<le> length code" and "1 \<le> ln" and "ln \<le> 1 + int i"
    and "sorted (map line tokens)" and "\<forall>t\<in>set tokens. line t \<le> ln"
  shows "sorted (map line (tokenizeLoop code i ln tokens))"
proof -
  let ?P = "\<lambda>(i::nat) ln (tokens::Token list).
    1 \<le> ln \<and> ln \<le> 1 + int i \<and> sorted (map line tokens) \<and> (\<forall>t\<in>set tokens. line t \<le> ln)"
  have "\<exists>i' ln'. length code \<le> i' \<and> ?P i' ln' (tokenizeLoop code i ln tokens)"
  proof (rule tokenizeLoop_invariant [where P = ?P])
    from assms show "?P i ln tokens" by simp
  next
    fix i ln t i' ln' and tokens :: "Token list"
    assume p: "?P i ln tokens" and inb: "i < length code" and s: "scanStep code i ln = (t, i', ln')"
    from p have lo: "1 \<le> ln" and hi: "ln \<le> 1 + int i" and srt: "sorted (map line tokens)"
      and bnd: "\<forall>t\<in>set tokens. line t \<le> ln" by simp_all
    from scanStep_line_step [OF inb s small lo hi] have f: "ln \<le> ln'" "ln' \<le> 1 + int i'" by blast+
    from lo f(1) have lo': "1 \<le> ln'" by simp
    from bnd f(1) have bnd': "\<forall>t\<in>set tokens. line t \<le> ln'" by (meson order_trans)
    show "?P i' ln' (case t of None \<Rightarrow> tokens | Some tok \<Rightarrow> tokens @ [tok])"
    proof (cases t)
      case None
      with srt bnd' lo' f(2) show ?thesis by simp
    next
      case (Some tok)
      with s have "scanStep code i ln = (Some tok, i', ln')" by simp
      from scanStep_token_line [OF inb this] have e: "line tok = ln'" .
      from srt bnd' e have "sorted (map line (tokens @ [tok]))" by (simp add: sorted_append)
      with bnd' e Some lo' f(2) show ?thesis by simp
    qed
  qed
  then show ?thesis by blast
qed





lemma linefeed_run:
  "(\<And>j. i \<le> j \<Longrightarrow> j < i + k \<Longrightarrow> code ! j = CHR 0x0A) \<Longrightarrow> i + k \<le> length code \<Longrightarrow>
   tokenizeLoop code i ln tokens = tokenizeLoop code (i + k) ((incLine ^^ k) ln) tokens"
proof (induction k arbitrary: i ln)
  case 0
  then show ?case by simp
next
  case (Suc k)
  from Suc.prems(2) have inb: "i < length code" by simp
  from Suc.prems(1) [of i] have lf: "code ! i = CHR 0x0A" by simp
  then have "isspace (code ! i)" by (simp add: isspace_def)
  from scanStep_space [OF this, of ln] lf
  have s: "scanStep code i ln = (None, i + 1, incLine ln)" by simp
  have "tokenizeLoop code (i + 1) (incLine ln) tokens =
      tokenizeLoop code (i + 1 + k) ((incLine ^^ k) (incLine ln)) tokens"
  proof (rule Suc.IH)
    fix j assume "i + 1 \<le> j" "j < i + 1 + k"
    then show "code ! j = CHR 0x0A" by (intro Suc.prems(1)) simp_all
  next
    from Suc.prems(2) show "i + 1 + k \<le> length code" by simp
  qed
  with tokenizeLoop_step [OF inb s, of tokens] show ?case by (simp add: funpow_swap1)
qed

lemma incLine_funpow_wrap: "(incLine ^^ 2147483647) 1 = - 2147483648"
proof -
  have "(incLine ^^ 2147483646) 1 = 1 + int 2147483646" by (intro incLine_funpow) simp_all
  then have "incLine ((incLine ^^ 2147483646) 1) = - 2147483648" by (simp add: incLine_wrap)
  moreover have "(2147483647::nat) = Suc 2147483646" by simp
  ultimately show ?thesis by (simp only: funpow.simps o_apply)
qed

lemma scanStep_single_letter:
  assumes inb: "i < length code" and al: "isalpha (code ! i)"
    and nx: "Suc i < length code \<longrightarrow> \<not> (isalnum (code ! Suc i) \<or> code ! Suc i = CHR ''_'')"
    and nk: "\<not> isKeyword [code ! i]"
  shows "scanStep code i ln = (Some \<lparr>lexeme = [code ! i], type = Identifier, line = ln\<rparr>, i + 1, ln)"
proof -
  from al have a: "isalnum (code ! i) \<or> code ! i = CHR ''_''" by (simp add: isalnum_def)
  from nx have "\<not> (Suc i < length code \<and> (isalnum (code ! Suc i) \<or> code ! Suc i = CHR ''_''))"
    by simp
  then have "identLoop code (i + 1) [code ! i] = ([code ! i], i + 1)"
    by (simp add: identLoop_stop)
  with inb a have il: "identLoop code i [] = ([code ! i], i + 1)"
    by (simp add: identLoop_step)
  from al have "isalpha (code ! i) \<or> code ! i = CHR ''_''" by simp
  from scanStep_ident [OF this il, of ln] nk show ?thesis by simp
qed

section \<open>Claims\<close>

text \<open>
  C1. On the input \<^verbatim>\<open>1e+z\<close> the claim expects the tokens \<^verbatim>\<open>1\<close> (Number),
  \<^verbatim>\<open>e\<close> (Identifier), \<^verbatim>\<open>+\<close> (Operator) and \<^verbatim>\<open>z\<close> (Identifier). The scanner
  rolls the cursor back to the exponent marker, but erases only the last character of the
  lexeme, which is the sign: the Number token is \<^verbatim>\<open>1e\<close>, and the marker \<^verbatim>\<open>e\<close> is
  scanned a second time as an identifier.
\<close>

theorem C1_exponent_rollback_keeps_marker:
  "parseNumber ''1e+z'' 0 = (''1e'', 1) \<and>
   tokenize ''1e+z'' =
    [\<lparr>lexeme = ''1e'', type = Number, line = 1\<rparr>,
     \<lparr>lexeme = ''e'', type = Identifier, line = 1\<rparr>,
     \<lparr>lexeme = ''+'', type = Operator, line = 1\<rparr>,
     \<lparr>lexeme = ''z'', type = Identifier, line = 1\<rparr>]"
  by code_simp

text \<open>
  C2. \<open>scanSpans\<close> lists, iteration by iteration, what the scan accounts for: the lexeme
  of the token pushed, or the skipped part of the input when no token is pushed. The claim
  expects their concatenation to be the input. On \<^verbatim>\<open>1e+z\<close>, where nothing is skipped,
  the lexemes are \<^verbatim>\<open>1e\<close>, \<^verbatim>\<open>e\<close>, \<^verbatim>\<open>+\<close>, \<^verbatim>\<open>z\<close>: the exponent marker
  is covered twice.
\<close>

theorem C2_coverage_broken_by_rollback:
  "scanSpans ''1e+z'' 0 1 = [''1e'', ''e'', ''+'', ''z''] \<and>
   concat (scanSpans ''1e+z'' 0 1) = ''1ee+z'' \<and>
   concat (scanSpans ''1e+z'' 0 1) \<noteq> ''1e+z''"
  by code_simp

text \<open>
  C3. The claim expects no token for any character of an unterminated block comment. The
  skipping loop stops one character before the end of the input (its condition is
  \<^verbatim>\<open>i + 1 < n\<close>), so the last character of the comment is scanned again by the main
  loop: on the input \<^verbatim>\<open>/*a\<close> the comment rule leaves the cursor at position 2, and
  the scan yields the identifier \<^verbatim>\<open>a\<close>.
\<close>

theorem C3_unterminated_comment_last_char:
  "scanStep ''/*a'' 0 1 = (None, 2, 1) \<and>
   tokenize ''/*a'' = [\<lparr>lexeme = ''a'', type = Identifier, line = 1\<rparr>]"
  by code_simp




text \<open>
  C5, as stated, fails in two places. In \<^verbatim>\<open>1.e5\<close> the characters \<^verbatim>\<open>e5\<close> are a
  maximal run of alphanumeric characters that starts with a letter, but the scanner emits the
  single Number token \<^verbatim>\<open>1.e5\<close> and no token for the run. And the keyword set has 26
  members, not 25.
\<close>

theorem C5_counterexample:
  "tokenize ''1.e5'' = [\<lparr>lexeme = ''1.e5'', type = Number, line = 1\<rparr>] \<and>
   card (set keywordList) = 26"
proof
  show "tokenize ''1.e5'' = [\<lparr>lexeme = ''1.e5'', type = Number, line = 1\<rparr>]" by code_simp
next
  from keywordList_distinct show "card (set keywordList) = 26" by (simp add: distinct_card)
qed

text \<open>
  C5, as amended. When the main loop dispatches at a cursor that holds a letter or an
  underscore, it emits exactly one token, whose lexeme is the maximal run of letters, digits
  and underscores that starts at the cursor (\<open>identRun\<close>: the run is not empty, it is the
  slice of the input at the cursor, and it ends at the end of the input or before a character
  that is neither alphanumeric nor an underscore); the cursor moves past the run; the token is
  a Keyword if the run is a member of the keyword set and an Identifier otherwise. The keyword
  set has 26 members.
\<close>

theorem C5_identifier_keyword:
  assumes "i < length code" and "isalpha (code ! i) \<or> code ! i = CHR ''_''"
  shows "scanStep code i ln =
      (Some \<lparr>lexeme = identRun code i,
             type = (if identRun code i \<in> set keywordList then Keyword else Identifier),
             line = ln\<rparr>,
       i + length (identRun code i), ln) \<and>
    identRun code i \<noteq> [] \<and>
    identRun code i = slice code i (i + length (identRun code i)) \<and>
    (i + length (identRun code i) = length code \<or>
     (i + length (identRun code i) < length code \<and>
      \<not> isalnum (code ! (i + length (identRun code i))) \<and>
      code ! (i + length (identRun code i)) \<noteq> CHR ''_'')) \<and>
    card (set keywordList) = 26"
proof -
  let ?P = "\<lambda>c. isalnum c \<or> c = CHR ''_''"
  let ?run = "identRun code i"
  from assms(1) have il: "identLoop code i [] = (?run, i + length ?run)"
    by (simp add: identLoop_takeWhile identRun_def)
  from scanStep_ident [OF assms(2) il, of ln]
  have a: "scanStep code i ln =
      (Some \<lparr>lexeme = ?run, type = (if ?run \<in> set keywordList then Keyword else Identifier),
             line = ln\<rparr>, i + length ?run, ln)"
    by (simp add: isKeyword_def)
  from assms(2) have "?P (code ! i)" by (auto simp: isalnum_def)
  with assms(1) have b: "?run \<noteq> []"
    by (simp add: identRun_def Cons_nth_drop_Suc [symmetric])
  have c: "?run = slice code i (i + length ?run)"
    unfolding identRun_def by (rule takeWhile_slice)
  have le: "length ?run \<le> length (drop i code)"
    unfolding identRun_def by (rule length_takeWhile_le)
  have d: "i + length ?run = length code \<or>
     (i + length ?run < length code \<and> \<not> isalnum (code ! (i + length ?run)) \<and>
      code ! (i + length ?run) \<noteq> CHR ''_'')"
  proof (cases "length ?run < length (drop i code)")
    case True
    then have "\<not> ?P (drop i code ! length ?run)"
      unfolding identRun_def by (rule nth_length_takeWhile)
    moreover from True assms(1) have "i + length ?run < length code" by simp
    ultimately show ?thesis using assms(1) by simp
  next
    case False
    with le assms(1) show ?thesis by simp
  qed
  from keywordList_distinct have e: "card (set keywordList) = 26"
    by (simp add: distinct_card)
  from a b c d e show ?thesis by blast
qed

theorem C5_identifier_keyword_witness:
  "scanStep ''if_ x'' 0 1 = (Some \<lparr>lexeme = ''if_'', type = Identifier, line = 1\<rparr>, 3, 1) \<and>
   scanStep ''if x'' 0 1 = (Some \<lparr>lexeme = ''if'', type = Keyword, line = 1\<rparr>, 2, 1)"
proof -
  have h1: "0 < length ''if_ x''" "isalpha (''if_ x'' ! 0) \<or> ''if_ x'' ! 0 = CHR ''_''" by code_simp+
  have h2: "0 < length ''if x''" "isalpha (''if x'' ! 0) \<or> ''if x'' ! 0 = CHR ''_''" by code_simp+
  have r1: "identRun ''if_ x'' 0 = ''if_''" by code_simp
  have r2: "identRun ''if x'' 0 = ''if''" by code_simp
  have k1: "''if_'' \<notin> set keywordList" by code_simp
  have k2: "''if'' \<in> set keywordList" by code_simp
  from C5_identifier_keyword [OF h1, of 1] C5_identifier_keyword [OF h2, of 1] r1 r2 k1 k2
  show ?thesis by simp
qed

text \<open>
  C6. Operator recognition is longest-match. \<open>reachesOperatorRule code i\<close> says that
  none of the rules above the operator rule applies at the cursor, and \<open>opAt code i len\<close>
  that the \<open>len\<close> characters at the cursor lie inside the input and form a member of the
  operator set. If a window matches and no longer window of at most 3 characters does, the
  iteration emits exactly that window as one Operator token and advances the cursor by its
  length. In particular the input \<^verbatim>\<open><<=x\<close> gives the operator token \<^verbatim>\<open><<=\<close>.
\<close>

theorem C6_operator_longest_match:
  assumes "reachesOperatorRule code i"
    and "opAt code i len"
    and "\<And>len'. len < len' \<Longrightarrow> len' \<le> 3 \<Longrightarrow> \<not> opAt code i len'"
  shows "scanStep code i ln =
      (Some \<lparr>lexeme = slice code i (i + len), type = Operator, line = ln\<rparr>, i + len, ln) \<and>
    tokenize ''<<=x'' =
      [\<lparr>lexeme = ''<<='', type = Operator, line = 1\<rparr>, \<lparr>lexeme = ''x'', type = Identifier, line = 1\<rparr>]"
proof
  from matchOp_longest [OF assms(2,3)] scanStep_other [OF assms(1), of ln]
  show "scanStep code i ln =
      (Some \<lparr>lexeme = slice code i (i + len), type = Operator, line = ln\<rparr>, i + len, ln)"
    by simp
next
  show "tokenize ''<<=x'' =
      [\<lparr>lexeme = ''<<='', type = Operator, line = 1\<rparr>, \<lparr>lexeme = ''x'', type = Identifier, line = 1\<rparr>]"
    by code_simp
qed

theorem C6_operator_longest_match_witness:
  "opAt ''<<=x'' 0 1 \<and> opAt ''<<=x'' 0 2 \<and> opAt ''<<=x'' 0 3 \<and>
   scanStep ''<<=x'' 0 1 = (Some \<lparr>lexeme = ''<<='', type = Operator, line = 1\<rparr>, 3, 1)"
proof -
  have r: "reachesOperatorRule ''<<=x'' 0" by code_simp
  have o: "opAt ''<<=x'' 0 1" "opAt ''<<=x'' 0 2" "opAt ''<<=x'' 0 3" by code_simp+
  have s: "slice ''<<=x'' 0 3 = ''<<=''" by code_simp
  have mx: "\<And>len'. 3 < len' \<Longrightarrow> len' \<le> 3 \<Longrightarrow> \<not> opAt ''<<=x'' 0 len'" by simp
  from C6_operator_longest_match [OF r o(3) mx, of 1] o s show ?thesis by simp
qed

text \<open>
  C7. The scan terminates and the main loop runs at most \<open>length code\<close> times: the
  number of iterations \<open>loopIterations code 0 1\<close> is at most the length of the input;
  running the loop body that many times from the initial state gives the result of
  \<open>tokenize\<close> with the cursor at or beyond the end of the input, and after fewer runs
  the cursor is still inside the input; every iteration entered with the cursor inside the
  input moves the cursor strictly forward, never beyond the end.
\<close>

theorem C7_forward_progress:
  "loopIterations code 0 1 \<le> length code \<and>
   (\<exists>i' ln'. (loopBody code ^^ loopIterations code 0 1) (0, 1, []) = (i', ln', tokenize code) \<and>
      length code \<le> i') \<and>
   (\<forall>j. j < loopIterations code 0 1 \<longrightarrow> fst ((loopBody code ^^ j) (0, 1, [])) < length code) \<and>
   (\<forall>i ln tokens. i < length code \<longrightarrow>
      i < fst (loopBody code (i, ln, tokens)) \<and> fst (loopBody code (i, ln, tokens)) \<le> length code)"
proof (intro conjI allI impI)
  from loopIterations_bound [of code 0 1] show "loopIterations code 0 1 \<le> length code" by simp
next
  from tokenizeLoop_funpow [of code 0 1 "[]"]
  show "\<exists>i' ln'. (loopBody code ^^ loopIterations code 0 1) (0, 1, []) = (i', ln', tokenize code) \<and>
      length code \<le> i'"
    by (simp add: tokenize_def)
next
  fix j assume "j < loopIterations code 0 1"
  then show "fst ((loopBody code ^^ j) (0, 1, [])) < length code"
    by (rule funpow_cursor_inside)
next
  fix i ln tokens assume inb: "i < length code"
  obtain t i' ln' where s: "scanStep code i ln = (t, i', ln')"
    by (cases "scanStep code i ln") auto
  from scanStep_facts [OF inb s] have "i < i'" "i' \<le> length code" by blast+
  then show "i < fst (loopBody code (i, ln, tokens))" "fst (loopBody code (i, ln, tokens)) \<le> length code"
    by (simp_all add: loopBody_step [OF s])
qed

theorem C7_forward_progress_witness:
  "loopIterations ''a /*b'' 0 1 = 4 \<and> 4 \<le> length ''a /*b'' \<and>
   (1::nat) < fst (loopBody ''a /*b'' (1, 1, [])) \<and> fst (loopBody ''a /*b'' (1, 1, [])) \<le> length ''a /*b''"
proof -
  have h: "(1::nat) < length ''a /*b''" by simp
  have e: "loopIterations ''a /*b'' 0 1 = 4" by code_simp
  from C7_forward_progress [of "''a /*b''"] h e show ?thesis by simp
qed

text \<open>
  C8, as stated for every input, fails when the 32-bit line counter wraps around: after
  \<open>2147483647\<close> line feeds the counter is \<open>-2147483648\<close>, so the identifier after them
  carries a smaller line number than the identifier on line 1.
\<close>

theorem C8_counterexample:
  "tokenize (CHR ''a'' # replicate 2147483647 (CHR 0x0A) @ ''b'') =
    [\<lparr>lexeme = ''a'', type = Identifier, line = 1\<rparr>,
     \<lparr>lexeme = ''b'', type = Identifier, line = - 2147483648\<rparr>]"
proof -
  let ?code = "CHR ''a'' # replicate 2147483647 (CHR 0x0A) @ ''b''"
  let ?ta = "\<lparr>lexeme = ''a'', type = Identifier, line = 1\<rparr>"
  let ?tb = "\<lparr>lexeme = ''b'', type = Identifier, line = - 2147483648\<rparr>"
  have len: "length ?code = 2147483649" by simp
  have c0: "?code ! 0 = CHR ''a''" by simp
  have lf: "\<And>j. 1 \<le> j \<Longrightarrow> j < 1 + 2147483647 \<Longrightarrow> ?code ! j = CHR 0x0A"
    by (simp add: nth_Cons' nth_append)
  have cb: "?code ! 2147483648 = CHR ''b''" by (simp add: nth_Cons' nth_append)
  have nka: "\<not> isKeyword ''a''" and nkb: "\<not> isKeyword ''b''"
    by (simp_all add: isKeyword_def keywordList_def)
  have s0: "scanStep ?code 0 1 = (Some ?ta, 1, 1)"
  proof -
    have "?code ! Suc 0 = CHR 0x0A" using lf [of 1] by simp
    then have "Suc 0 < length ?code \<longrightarrow> \<not> (isalnum (?code ! Suc 0) \<or> ?code ! Suc 0 = CHR ''_'')"
      by (simp add: isalnum_def isalpha_def isdigit_def)
    moreover have "isalpha (?code ! 0)" by (simp add: isalpha_def)
    moreover have "0 < length ?code" by simp
    ultimately show ?thesis using scanStep_single_letter [of 0 ?code 1] nka by simp
  qed
  have s1: "scanStep ?code 2147483648 (- 2147483648) = (Some ?tb, 2147483649, - 2147483648)"
  proof -
    have "isalpha (?code ! 2147483648)" by (simp only: cb) (simp add: isalpha_def)
    moreover have "2147483648 < length ?code" by simp
    moreover have "Suc 2147483648 < length ?code \<longrightarrow>
        \<not> (isalnum (?code ! Suc 2147483648) \<or> ?code ! Suc 2147483648 = CHR ''_'')" by simp
    ultimately show ?thesis
      using scanStep_single_letter [of 2147483648 ?code "- 2147483648"] nkb cb by simp
  qed
  have "tokenize ?code = tokenizeLoop ?code 1 1 [?ta]"
    using tokenizeLoop_step [OF _ s0, of "[]"] by (simp add: tokenize_def)
  also have "\<dots> = tokenizeLoop ?code (1 + 2147483647) ((incLine ^^ 2147483647) 1) [?ta]"
    by (rule linefeed_run) (use lf in simp_all)
  also have "\<dots> = tokenizeLoop ?code 2147483648 (- 2147483648) [?ta]"
    by (simp only: incLine_funpow_wrap) simp
  also have "\<dots> = tokenizeLoop ?code 2147483649 (- 2147483648) [?ta, ?tb]"
    using tokenizeLoop_step [OF _ s1, of "[?ta]"] by simp
  also have "\<dots> = [?ta, ?tb]"
    by (rule tokenizeLoop_stop) simp
  finally show ?thesis .
qed

text \<open>
  C8, as amended. For an input of fewer than \<open>2147483647\<close> characters the line fields of
  the emitted tokens never decrease: a token emitted before another one has a line number
  that is less than or equal to the other's.
\<close>

theorem C8_line_nondecreasing:
  assumes "length code < 2147483647" and "a \<le> b" and "b < length (tokenize code)"
  shows "line (tokenize code ! a) \<le> line (tokenize code ! b)"
proof -
  have "sorted (map line (tokenize code))"
    unfolding tokenize_def by (rule tokenizeLoop_lines [OF assms(1)]) simp_all
  from sorted_nth_mono [OF this, of a b] assms show ?thesis by simp
qed

theorem C8_line_nondecreasing_witness:
  "line (tokenize [CHR ''a'', CHR 0x0A, CHR ''b''] ! 0) = 1 \<and>
   line (tokenize [CHR ''a'', CHR 0x0A, CHR ''b''] ! 1) = 2 \<and>
   line (tokenize [CHR ''a'', CHR 0x0A, CHR ''b''] ! 0) \<le> line (tokenize [CHR ''a'', CHR 0x0A, CHR ''b''] ! 1)"
proof -
  have t: "tokenize [CHR ''a'', CHR 0x0A, CHR ''b''] =
      [\<lparr>lexeme = ''a'', type = Identifier, line = 1\<rparr>, \<lparr>lexeme = ''b'', type = Identifier, line = 2\<rparr>]"
    by code_simp
  have s: "length [CHR ''a'', CHR 0x0A, CHR ''b''] < 2147483647" by simp
  from t have h: "(0::nat) \<le> 1" "1 < length (tokenize [CHR ''a'', CHR 0x0A, CHR ''b''])" by simp_all
  from C8_line_nondecreasing [OF s h] t show ?thesis by simp
qed

text \<open>
  C9. Every emitted token has a non-empty lexeme. The scanner guarantees this for every
  token, also for those of malformed literals (which hold at least the opening quote), so
  it holds in particular for the tokens the claim speaks of.
\<close>

theorem C9_lexeme_nonempty:
  assumes "tok \<in> set (tokenize code)"
  shows "lexeme tok \<noteq> []"
proof -
  have "\<forall>t\<in>set (tokenize code). lexeme t \<noteq> []"
    unfolding tokenize_def by (rule tokenizeLoop_nonempty) simp
  with assms show ?thesis by blast
qed

theorem C9_lexeme_nonempty_witness:
  "tokenize [CHR 0x27] = [\<lparr>lexeme = [CHR 0x27], type = Char, line = 1\<rparr>] \<and>
   lexeme \<lparr>lexeme = [CHR 0x27], type = Char, line = 1\<rparr> \<noteq> []"
proof -
  have t: "tokenize [CHR 0x27] = [\<lparr>lexeme = [CHR 0x27], type = Char, line = 1\<rparr>]"
    by code_simp
  then have h: "\<lparr>lexeme = [CHR 0x27], type = Char, line = 1\<rparr> \<in> set (tokenize [CHR 0x27])" by simp
  from C9_lexeme_nonempty [OF h] t show ?thesis by simp
qed

text \<open>
  C10. When the main loop enters the number rule (the current character is a digit, or a
  dot immediately followed by a digit), \<^verbatim>\<open>parseNumber\<close> returns a non-empty lexeme
  that contains a digit, and the iteration emits that lexeme as a Number token: the
  fall-through to the operator rule is not taken.
\<close>

theorem C10_number_branch_emits:
  assumes "i < length code" and "numberStart code i"
  shows "list_ex isdigit (fst (parseNumber code i)) \<and> fst (parseNumber code i) \<noteq> [] \<and>
    scanStep code i ln =
      (Some \<lparr>lexeme = fst (parseNumber code i), type = Number, line = ln\<rparr>,
       snd (parseNumber code i), ln)"
proof -
  obtain num i1 where p: "parseNumber code i = (num, i1)"
    by (cases "parseNumber code i") auto
  from assms(2) have e: "isdigit (code ! i) \<or> (code ! i = CHR ''.'' \<and> isdigit (peekChar code i 1))"
    by (simp add: numberStart_def)
  from parseNumber_facts [OF assms(1) e p] have d: "list_ex isdigit num" by blast
  then have "num \<noteq> []" by auto
  with d p scanStep_number [OF assms p, of ln] show ?thesis by simp
qed

theorem C10_number_branch_emits_witness:
  "numberStart ''.5e+'' 0 \<and> parseNumber ''.5e+'' 0 = (''.5e'', 2) \<and>
   scanStep ''.5e+'' 0 1 = (Some \<lparr>lexeme = ''.5e'', type = Number, line = 1\<rparr>, 2, 1)"
proof -
  have h: "0 < length ''.5e+''" "numberStart ''.5e+'' 0" by code_simp+
  have p: "parseNumber ''.5e+'' 0 = (''.5e'', 2)" by code_simp
  from C10_number_branch_emits [OF h, of 1] h p show ?thesis by simp
qed

end
